theory Spec2Isabelle
  imports Complex_Main
begin

section \<open>Numbers\<close>

text \<open>
  The plugin computes with JavaScript numbers. Coordinates, sizes and areas are modelled
  as exact rationals: every one of them is a \<^typ>\<open>rat\<close>, and the comparisons, sums,
  products and quotients of the geometric checks are the exact ones. \<open>Math.floor\<close> and
  \<open>Math.ceil\<close> are \<^const>\<open>floor\<close> and \<^const>\<open>ceiling\<close>; \<open>Math.round\<close> rounds half up.
\<close>

definition Math_round :: "rat \<Rightarrow> int" where
  "Math_round v = \<lfloor>v + 1 / 2\<rfloor>"

text \<open>
  The text-truncation estimate multiplies by \<open>0.55\<close> and \<open>1.4\<close>, which are not binary
  fractions, and takes the floor of a quotient: there the rounding of IEEE doubles
  decides the outcome at whole-number sizes (\<open>14 * 0.55\<close> is \<open>7.700000000000001\<close>, so an
  available width of 77 holds 9 characters and not 10). Each operation of the estimate is
  therefore rounded as the machine does it: \<open>double x\<close> is the binary64 number nearest
  to \<open>x\<close>, ties going to the even significand. For a positive \<open>x\<close>, \<open>exponent x\<close> is the
  integer \<open>e\<close> with \<open>2 powi e \<le> x < 2 powi (e + 1)\<close>, and \<open>ulp x = 2 powi (e - 52)\<close> the
  spacing of the doubles there. The exponent is not bounded: overflow to infinity and
  the subnormal numbers (magnitudes above \<open>1.7e308\<close> or below \<open>2.3e-308\<close>) are outside
  the model. \<open>exponentUp x\<close> counts the halvings that bring \<open>x \<ge> 1\<close> below 2, and
  \<open>exponentDown x\<close> the doublings that bring a positive \<open>x < 1\<close> up to 1.
\<close>

definition roundHalfEven :: "rat \<Rightarrow> int" where
  "roundHalfEven q =
     (let f = \<lfloor>q\<rfloor>; r = q - rat_of_int f
      in if r < 1 / 2 then f else if 1 / 2 < r then f + 1 else if even f then f else f + 1)"

function exponentUp :: "rat \<Rightarrow> nat" where
  "exponentUp x = (if 2 \<le> x then Suc (exponentUp (x / 2)) else 0)"
  by pat_completeness auto

termination
proof (relation "measure (\<lambda>x. nat \<lfloor>x\<rfloor>)")
  show "wf (measure (\<lambda>x::rat. nat \<lfloor>x\<rfloor>))" by simp
next
  fix x :: rat
  assume x: "2 \<le> x"
  have "rat_of_int \<lfloor>x / 2\<rfloor> \<le> x / 2" by (rule of_int_floor_le)
  also have "\<dots> \<le> x - 1" using x by simp
  also have "\<dots> < rat_of_int \<lfloor>x\<rfloor>" by linarith
  finally have "\<lfloor>x / 2\<rfloor> < \<lfloor>x\<rfloor>" by simp
  moreover have "0 < \<lfloor>x\<rfloor>" using x by simp
  ultimately show "(x / 2, x) \<in> measure (\<lambda>x. nat \<lfloor>x\<rfloor>)" by simp
qed

function exponentDown :: "rat \<Rightarrow> nat" where
  "exponentDown x = (if 0 < x \<and> x < 1 then Suc (exponentDown (2 * x)) else 0)"
  by pat_completeness auto

termination
proof (relation "measure (\<lambda>x. nat \<lfloor>1 / x\<rfloor>)")
  show "wf (measure (\<lambda>x::rat. nat \<lfloor>1 / x\<rfloor>))" by simp
next
  fix x :: rat
  assume x: "0 < x \<and> x < 1"
  define t where "t = 1 / x"
  have t: "1 < t" using x by (simp add: t_def)
  have eq: "1 / (2 * x) = t / 2" by (simp add: t_def)
  have pos: "0 < \<lfloor>t\<rfloor>" using t by simp
  have "\<lfloor>t / 2\<rfloor> < \<lfloor>t\<rfloor>"
  proof (cases "2 \<le> t")
    case True
    have "rat_of_int \<lfloor>t / 2\<rfloor> \<le> t / 2" by (rule of_int_floor_le)
    also have "\<dots> \<le> t - 1" using True by simp
    also have "\<dots> < rat_of_int \<lfloor>t\<rfloor>" by linarith
    finally show ?thesis by simp
  next
    case False
    then have "\<lfloor>t / 2\<rfloor> = 0" using t by (simp add: floor_eq_iff)
    then show ?thesis using pos by simp
  qed
  then have "nat \<lfloor>t / 2\<rfloor> < nat \<lfloor>t\<rfloor>" using pos by simp
  then have "nat \<lfloor>1 / (2 * x)\<rfloor> < nat \<lfloor>1 / x\<rfloor>" unfolding eq unfolding t_def .
  then show "(2 * x, x) \<in> measure (\<lambda>x. nat \<lfloor>1 / x\<rfloor>)" by simp
qed

declare exponentUp.simps [simp del] exponentDown.simps [simp del]

definition exponent :: "rat \<Rightarrow> int" where
  "exponent x = (if 1 \<le> x then int (exponentUp x) else - int (exponentDown x))"

definition ulp :: "rat \<Rightarrow> rat" where
  "ulp x = 2 powi (exponent x - 52)"

definition nearest :: "rat \<Rightarrow> rat" where
  "nearest x = rat_of_int (roundHalfEven (x / ulp x)) * ulp x"

definition double :: "rat \<Rightarrow> rat" where
  "double x = (if 0 < x then nearest x else if x < 0 then - nearest (- x) else 0)"

section \<open>The scene as the validator reads it\<close>

text \<open>
  \<open>node.type\<close> of a scene node. The validator distinguishes the first five;
  \<open>OTHER\<close> stands for every other kind the host has (stamps, groups, ...).
\<close>

datatype nodeType = SHAPE_WITH_TEXT | STICKY | TEXT | CONNECTOR | SECTION | OTHER

text \<open>
  A scene node with the fields the validator reads. \<open>node_characters\<close> is
  \<open>text.characters\<close> (the label of a connector, the text of a shape);
  \<open>connectorStart\<close> and \<open>connectorEnd\<close> are \<open>Some id\<close> when the endpoint has an
  \<open>endpointNodeId\<close>; \<open>node_children\<close> are the children of a section, whose
  coordinates are relative to the section.
\<close>

datatype node = Node
  (node_id: string) (node_name: string) (node_type: nodeType)
  (node_x: rat) (node_y: rat) (node_width: rat) (node_height: rat)
  (node_characters: string) (node_fontSize: rat)
  (connectorStart: "string option") (connectorEnd: "string option")
  (node_children: "node list")

text \<open>
  The page is the list of its top-level children (\<open>figma.currentPage.children\<close>).
  \<open>figma.currentPage.findAll()\<close> returns every descendant in document order, and
  \<open>findOne\<close> the first one that satisfies the predicate.
\<close>

fun subtree :: "node \<Rightarrow> node list" where
  "subtree (Node i nm t x y w h c f s e cs) =
     Node i nm t x y w h c f s e cs # concat (map subtree cs)"

definition findAll :: "node list \<Rightarrow> node list" where
  "findAll page = concat (map subtree page)"

definition findNodeById :: "node list \<Rightarrow> string \<Rightarrow> node option" where
  "findNodeById page i = find (\<lambda>n. node_id n = i) (findAll page)"

section \<open>Issues\<close>

text \<open>
  An issue of the report. The source builds \<open>details\<close> and \<open>suggestion\<close> as
  strings; the model keeps the values that are printed into them:
  \<^item> \<open>TextTruncated shape.id suggestedWidth suggestedHeight\<close>;
  \<^item> \<open>Overlap boxA.id boxB.id (Math.round overlapArea)\<close>: \<open>boxB.id\<close> is the
    element the suggestion asks to move;
  \<^item> \<open>TightConnector conn.id endNode.id (Math.round effectiveGap) moveDir
    (Math.round moveAmount)\<close>;
  \<^item> \<open>ConnectorThroughShape conn.id bx.id\<close>;
  \<^item> \<open>SectionBleed child.id sec.id bleeds size\<close>, each bleed an edge with the
    rounded amount printed after it; \<open>size\<close> is the section size the structural
    pass suggests, and \<open>None\<close> in the visual pass, which suggests none.
\<close>

datatype moveDir = horizontally | vertically

datatype edge = left_edge | right_edge | top_edge | bottom_edge

datatype issue =
    TextTruncated string rat int
  | Overlap string string int
  | TightConnector string string int moveDir int
  | ConnectorThroughShape string string
  | SectionBleed string string "(edge \<times> int) list" "(int \<times> int) option"

section \<open>Text truncation\<close>

text \<open>
  The estimate of \<open>handleValidateLayout\<close> for one shape, operation by operation; every
  product, quotient, sum and difference is rounded to a double. \<open>fontSize || 14\<close>
  replaces a font size of zero by 14.
\<close>

definition effectiveFontSize :: "node \<Rightarrow> rat" where
  "effectiveFontSize shape = (if node_fontSize shape = 0 then 14 else node_fontSize shape)"

definition charWidth :: "node \<Rightarrow> rat" where
  "charWidth shape = double (effectiveFontSize shape * double (55 / 100))"

definition availableWidth :: "node \<Rightarrow> rat" where
  "availableWidth shape = double (node_width shape - 40)"

definition availableHeight :: "node \<Rightarrow> rat" where
  "availableHeight shape = double (node_height shape - 40)"

definition charsPerLine :: "node \<Rightarrow> int" where
  "charsPerLine shape = max 1 \<lfloor>double (availableWidth shape / charWidth shape)\<rfloor>"

definition linesNeeded :: "node \<Rightarrow> int" where
  "linesNeeded shape =
     \<lceil>double (rat_of_nat (length (node_characters shape)) / rat_of_int (charsPerLine shape))\<rceil>"

definition lineHeight :: "node \<Rightarrow> rat" where
  "lineHeight shape = double (effectiveFontSize shape * double (14 / 10))"

definition textHeight :: "node \<Rightarrow> rat" where
  "textHeight shape = double (rat_of_int (linesNeeded shape) * lineHeight shape)"

definition truncated :: "node \<Rightarrow> bool" where
  "truncated shape \<longleftrightarrow>
     node_type shape = SHAPE_WITH_TEXT \<and> length (node_characters shape) > 0 \<and>
     textHeight shape > availableHeight shape"

definition suggestedHeight :: "node \<Rightarrow> int" where
  "suggestedHeight shape = \<lceil>double (double (textHeight shape + 40) + 20)\<rceil>"

definition suggestedWidth :: "node \<Rightarrow> rat" where
  "suggestedWidth shape =
     (if int (length (node_characters shape)) > charsPerLine shape * 2
      then max (node_width shape)
             (rat_of_int \<lceil>double (double (double
                (rat_of_nat (length (node_characters shape)) * charWidth shape) / 2) + 40)\<rceil>)
      else node_width shape)"

definition truncationIssues :: "node \<Rightarrow> issue list" where
  "truncationIssues n =
     (if truncated n then [TextTruncated (node_id n) (suggestedWidth n) (suggestedHeight n)]
      else [])"

text \<open>\<open>shape.resize(w, h)\<close> of the host: the size changes, nothing else.\<close>

definition resize :: "node \<Rightarrow> rat \<Rightarrow> rat \<Rightarrow> node" where
  "resize n w h =
     Node (node_id n) (node_name n) (node_type n) (node_x n) (node_y n) w h
       (node_characters n) (node_fontSize n) (connectorStart n) (connectorEnd n)
       (node_children n)"

section \<open>Bounding boxes and overlap\<close>

record box =
  box_id :: string
  box_name :: string
  box_x :: rat
  box_y :: rat
  box_w :: rat
  box_h :: rat
  box_nodeType :: nodeType

definition toBox :: "node \<Rightarrow> box" where
  "toBox n = \<lparr>box_id = node_id n, box_name = node_name n, box_x = node_x n,
              box_y = node_y n, box_w = node_width n, box_h = node_height n,
              box_nodeType = node_type n\<rparr>"

definition collectBoxes :: "node list \<Rightarrow> box list" where
  "collectBoxes children = map toBox (filter (\<lambda>n. node_type n \<noteq> CONNECTOR) children)"

definition overlapX :: "box \<Rightarrow> box \<Rightarrow> bool" where
  "overlapX boxA boxB \<longleftrightarrow>
     box_x boxA < box_x boxB + box_w boxB \<and> box_x boxA + box_w boxA > box_x boxB"

definition overlapY :: "box \<Rightarrow> box \<Rightarrow> bool" where
  "overlapY boxA boxB \<longleftrightarrow>
     box_y boxA < box_y boxB + box_h boxB \<and> box_y boxA + box_h boxA > box_y boxB"

definition overlapArea :: "box \<Rightarrow> box \<Rightarrow> rat" where
  "overlapArea boxA boxB =
     (let ox1 = max (box_x boxA) (box_x boxB);
          oy1 = max (box_y boxA) (box_y boxB);
          ox2 = min (box_x boxA + box_w boxA) (box_x boxB + box_w boxB);
          oy2 = min (box_y boxA + box_h boxA) (box_y boxB + box_h boxB)
      in (ox2 - ox1) * (oy2 - oy1))"

definition smallerArea :: "box \<Rightarrow> box \<Rightarrow> rat" where
  "smallerArea boxA boxB = min (box_w boxA * box_h boxA) (box_w boxB * box_h boxB)"

text \<open>The body of the nested iteration, for one pair \<open>a < b\<close>.\<close>

definition overlapPair :: "box \<Rightarrow> box \<Rightarrow> issue list" where
  "overlapPair boxA boxB =
     (if box_nodeType boxA = SECTION \<or> box_nodeType boxB = SECTION then []
      else if overlapX boxA boxB \<and> overlapY boxA boxB then
        (if overlapArea boxA boxB > smallerArea boxA boxB * (1 / 10)
         then [Overlap (box_id boxA) (box_id boxB) (Math_round (overlapArea boxA boxB))]
         else [])
      else [])"

text \<open>\<open>for a = 0 .. length - 1, for b = a + 1 .. length - 1\<close>.\<close>

definition overlapIssues :: "box list \<Rightarrow> issue list" where
  "overlapIssues boxes =
     concat (map (\<lambda>a. concat (map (\<lambda>b. overlapPair (boxes ! a) (boxes ! b))
                                  [a + 1 ..< length boxes]))
                 [0 ..< length boxes])"

section \<open>Connector gap\<close>

definition gapH :: "node \<Rightarrow> node \<Rightarrow> rat" where
  "gapH startNode endNode =
     (if node_x startNode + node_width startNode \<le> node_x endNode
      then node_x endNode - (node_x startNode + node_width startNode)
      else if node_x endNode + node_width endNode \<le> node_x startNode
      then node_x startNode - (node_x endNode + node_width endNode)
      else - 1)"

definition gapV :: "node \<Rightarrow> node \<Rightarrow> rat" where
  "gapV startNode endNode =
     (if node_y startNode + node_height startNode \<le> node_y endNode
      then node_y endNode - (node_y startNode + node_height startNode)
      else if node_y endNode + node_height endNode \<le> node_y startNode
      then node_y startNode - (node_y endNode + node_height endNode)
      else - 1)"

definition effectiveGap :: "rat \<Rightarrow> rat \<Rightarrow> rat" where
  "effectiveGap gh gv =
     (if gh \<ge> 0 \<and> gv \<ge> 0 then min gh gv
      else if gh \<ge> 0 then gh
      else if gv \<ge> 0 then gv
      else - 1)"

definition MIN_CONNECTOR_GAP :: rat where
  "MIN_CONNECTOR_GAP = 80"

definition moveDirOf :: "rat \<Rightarrow> rat \<Rightarrow> moveDir" where
  "moveDirOf gh gv = (if gh \<ge> 0 \<and> (gv < 0 \<or> gh \<le> gv) then horizontally else vertically)"

definition moveAmount :: "rat \<Rightarrow> rat" where
  "moveAmount eff = MIN_CONNECTOR_GAP - eff"

definition tightConnector :: "node \<Rightarrow> node \<Rightarrow> node \<Rightarrow> issue list" where
  "tightConnector conn startNode endNode =
     (let gh = gapH startNode endNode;
          gv = gapV startNode endNode;
          eff = effectiveGap gh gv
      in if eff \<ge> 0 \<and> eff < MIN_CONNECTOR_GAP
         then [TightConnector (node_id conn) (node_id endNode) (Math_round eff)
                 (moveDirOf gh gv) (Math_round (moveAmount eff))]
         else [])"

text \<open>
  The endpoints of a connector: both ends must carry an \<open>endpointNodeId\<close> and both
  ids must resolve, else the connector is skipped.
\<close>

definition resolveEndpoints :: "node list \<Rightarrow> node \<Rightarrow> (node \<times> node) option" where
  "resolveEndpoints page conn =
     (case connectorStart conn of
        None \<Rightarrow> None
      | Some si \<Rightarrow>
         (case connectorEnd conn of
            None \<Rightarrow> None
          | Some ei \<Rightarrow>
             (case findNodeById page si of
                None \<Rightarrow> None
              | Some startNode \<Rightarrow>
                 (case findNodeById page ei of
                    None \<Rightarrow> None
                  | Some endNode \<Rightarrow> Some (startNode, endNode)))))"

definition gapIssues :: "node list \<Rightarrow> issue list" where
  "gapIssues page =
     concat (map (\<lambda>cn.
        if node_type cn \<noteq> CONNECTOR then []
        else (case resolveEndpoints page cn of
                None \<Rightarrow> []
              | Some (startNode, endNode) \<Rightarrow> tightConnector cn startNode endNode))
       (findAll page))"

section \<open>Connector path\<close>

text \<open>
  The loop \<open>for k = 0 .. 3\<close> over the pairs \<open>(p[k], q[k])\<close>, with the interval
  \<open>u1, u2\<close> as its state; the first component of the result is \<open>intersects\<close>, which
  the \<open>break\<close> leaves false.
\<close>

fun clipLoop :: "(rat \<times> rat) list \<Rightarrow> rat \<Rightarrow> rat \<Rightarrow> bool \<times> rat \<times> rat" where
  "clipLoop [] u1 u2 = (True, u1, u2)"
| "clipLoop ((p, q) # rest) u1 u2 =
     (if p = 0 then (if q < 0 then (False, u1, u2) else clipLoop rest u1 u2)
      else (let t = q / p in
            if p < 0 then clipLoop rest (if t > u1 then t else u1) u2
            else clipLoop rest u1 (if t < u2 then t else u2)))"

definition segmentHitsBox :: "rat \<Rightarrow> rat \<Rightarrow> rat \<Rightarrow> rat \<Rightarrow> box \<Rightarrow> bool" where
  "segmentHitsBox lx1 ly1 lx2 ly2 bx =
     (let dx = lx2 - lx1;
          dy = ly2 - ly1;
          p = [- dx, dx, - dy, dy];
          q = [lx1 - box_x bx, box_x bx + box_w bx - lx1,
               ly1 - box_y bx, box_y bx + box_h bx - ly1]
      in (case clipLoop (zip p q) 0 1 of (intersects, u1, u2) \<Rightarrow> intersects \<and> u1 \<le> u2))"

definition centerX :: "node \<Rightarrow> rat" where
  "centerX n = node_x n + node_width n / 2"

definition centerY :: "node \<Rightarrow> rat" where
  "centerY n = node_y n + node_height n / 2"

text \<open>The body of the inner loop, for one connector and one box.\<close>

definition throughShape :: "node \<Rightarrow> node \<Rightarrow> node \<Rightarrow> box \<Rightarrow> issue list" where
  "throughShape conn2 sn2 en2 bx =
     (if box_nodeType bx = SECTION \<or> box_nodeType bx = TEXT then []
      else if box_id bx = node_id sn2 \<or> box_id bx = node_id en2 then []
      else if segmentHitsBox (centerX sn2) (centerY sn2) (centerX en2) (centerY en2) bx
      then [ConnectorThroughShape (node_id conn2) (box_id bx)]
      else [])"

definition pathIssues :: "node list \<Rightarrow> box list \<Rightarrow> issue list" where
  "pathIssues page boxes =
     concat (map (\<lambda>cn2.
        if node_type cn2 \<noteq> CONNECTOR then []
        else (case resolveEndpoints page cn2 of
                None \<Rightarrow> []
              | Some (sn2, en2) \<Rightarrow> concat (map (throughShape cn2 sn2 en2) boxes)))
       (findAll page))"

section \<open>Section bleed\<close>

definition SECTION_PADDING :: rat where
  "SECTION_PADDING = 40"

text \<open>Pass (a): the children of the section, in the section's coordinates.\<close>

definition structuralBleeds :: "node \<Rightarrow> node \<Rightarrow> (edge \<times> int) list" where
  "structuralBleeds sec sChild =
     (if node_x sChild < 0 then [(left_edge, Math_round (- node_x sChild))] else []) @
     (if node_x sChild + node_width sChild > node_width sec
      then [(right_edge, Math_round (node_x sChild + node_width sChild - node_width sec))]
      else []) @
     (if node_y sChild < SECTION_PADDING
      then [(top_edge, Math_round (SECTION_PADDING - node_y sChild))] else []) @
     (if node_y sChild + node_height sChild > node_height sec
      then [(bottom_edge, Math_round (node_y sChild + node_height sChild - node_height sec))]
      else [])"

definition structuralBleed :: "node \<Rightarrow> node \<Rightarrow> issue list" where
  "structuralBleed sec sChild =
     (if node_type sChild = CONNECTOR then []
      else (let bleeds = structuralBleeds sec sChild in
            if length bleeds > 0
            then [SectionBleed (node_id sChild) (node_id sec) bleeds
                    (Some (\<lceil>max (node_x sChild + node_width sChild + 30) (node_width sec)\<rceil>,
                           \<lceil>max (node_y sChild + node_height sChild + 30) (node_height sec)\<rceil>))]
            else []))"

text \<open>Pass (b): the page-level boxes whose centre lies inside the section.\<close>

definition visualBleeds :: "node \<Rightarrow> box \<Rightarrow> (edge \<times> int) list" where
  "visualBleeds sec child =
     (let secRight = node_x sec + node_width sec;
          secBottom = node_y sec + node_height sec
      in
      (if box_x child < node_x sec + 10
       then [(left_edge, Math_round (node_x sec + 10 - box_x child))] else []) @
      (if box_x child + box_w child > secRight - 10
       then [(right_edge, Math_round (box_x child + box_w child - secRight + 10))] else []) @
      (if box_y child < node_y sec + SECTION_PADDING
       then [(top_edge, Math_round (node_y sec + SECTION_PADDING - box_y child))] else []) @
      (if box_y child + box_h child > secBottom - 10
       then [(bottom_edge, Math_round (box_y child + box_h child - secBottom + 10))] else []))"

definition visualBleed :: "node \<Rightarrow> box \<Rightarrow> issue list" where
  "visualBleed sec child =
     (if box_nodeType child = SECTION then []
      else if box_id child = node_id sec then []
      else (let secRight = node_x sec + node_width sec;
                secBottom = node_y sec + node_height sec;
                childCX = box_x child + box_w child / 2;
                childCY = box_y child + box_h child / 2;
                insideSection = (childCX > node_x sec \<and> childCX < secRight \<and>
                                 childCY > node_y sec \<and> childCY < secBottom)
            in if insideSection then
                 (let vBleeds = visualBleeds sec child in
                  if length vBleeds > 0
                  then [SectionBleed (box_id child) (node_id sec) vBleeds None]
                  else [])
               else []))"

definition bleedIssues :: "node list \<Rightarrow> box list \<Rightarrow> issue list" where
  "bleedIssues children boxes =
     concat (map (\<lambda>sNode.
        if node_type sNode \<noteq> SECTION then []
        else concat (map (structuralBleed sNode) (node_children sNode)) @
             concat (map (visualBleed sNode) boxes))
       children)"

section \<open>The validator\<close>

text \<open>
  \<open>handleValidateLayout\<close>: the text-truncation issues of the top-level shapes, then
  the overlaps, the tight connectors, the obstructed connectors and the section bleeds,
  in the order the source pushes them. The boxes are collected from the top-level
  children of the page only.
\<close>

definition handleValidateLayout :: "node list \<Rightarrow> issue list" where
  "handleValidateLayout page =
     (let boxes = collectBoxes page in
      concat (map truncationIssues page) @
      overlapIssues boxes @
      gapIssues page @
      pathIssues page boxes @
      bleedIssues page boxes)"

section \<open>The scene as align and distribute mutate it\<close>

text \<open>
  \<open>handleAlignElements\<close>, \<open>handleDistributeElements\<close> and
  \<open>resizeParentSections\<close> hold references to scene nodes in arrays (\<open>nodes\<close>,
  \<open>sec.children\<close>, \<open>node.parent\<close>) and write their fields in place, so a write
  through one reference is seen through every other. The model is a store: a node
  reference is the node's id, \<open>nodes\<close> maps every reference to the current fields
  of its node, and \<open>page_ids\<close> are the ids that \<open>findNodeById\<close> resolves on the
  current page. \<open>el_parent\<close> is \<open>None\<close> for a node whose parent is the page.
\<close>

record element =
  el_type :: nodeType
  el_x :: rat
  el_y :: rat
  el_width :: rat
  el_height :: rat
  el_parent :: "string option"
  el_children :: "string list"

type_synonym store = "string \<Rightarrow> element"

record scene =
  nodes :: store
  page_ids :: "string set"

text \<open>
  \<open>for each id: node = findNodeById(id); if (node) nodes.push(node)\<close>. An id that
  does not resolve is skipped; an id given twice is pushed twice.
\<close>

definition resolveNodes :: "scene \<Rightarrow> string list \<Rightarrow> string list" where
  "resolveNodes sc elementIds = filter (\<lambda>i. i \<in> page_ids sc) elementIds"

definition setX :: "string \<Rightarrow> rat \<Rightarrow> store \<Rightarrow> store" where
  "setX n v h = h(n := (h n)\<lparr>el_x := v\<rparr>)"

definition setY :: "string \<Rightarrow> rat \<Rightarrow> store \<Rightarrow> store" where
  "setY n v h = h(n := (h n)\<lparr>el_y := v\<rparr>)"

text \<open>\<open>sec.resizeWithoutConstraints(w, h)\<close> of the host.\<close>

definition resizeWithoutConstraints :: "string \<Rightarrow> rat \<Rightarrow> rat \<Rightarrow> store \<Rightarrow> store" where
  "resizeWithoutConstraints n w hh h = h(n := (h n)\<lparr>el_width := w, el_height := hh\<rparr>)"

subsection \<open>Section auto-fit\<close>

text \<open>
  The running minimum and maximum of the bounding-box loop, started at
  \<open>children[0]\<close> and updated for \<open>j = 1 ..\<close>.
\<close>

definition loopMin :: "rat \<Rightarrow> rat list \<Rightarrow> rat" where
  "loopMin v vs = foldl (\<lambda>m c. if c < m then c else m) v vs"

definition loopMax :: "rat \<Rightarrow> rat list \<Rightarrow> rat" where
  "loopMax v vs = foldl (\<lambda>m c. if c > m then c else m) v vs"

definition right_of :: "store \<Rightarrow> string \<Rightarrow> rat" where
  "right_of h c = el_x (h c) + el_width (h c)"

definition bottom_of :: "store \<Rightarrow> string \<Rightarrow> rat" where
  "bottom_of h c = el_y (h c) + el_height (h c)"

definition shiftChildren :: "string list \<Rightarrow> rat \<Rightarrow> rat \<Rightarrow> store \<Rightarrow> store" where
  "shiftChildren children shiftX shiftY h =
     fold (\<lambda>c h. h(c := (h c)\<lparr>el_x := el_x (h c) + shiftX, el_y := el_y (h c) + shiftY\<rparr>))
       children h"

text \<open>
  The body of the loop of \<open>resizeParentSections\<close> for one section \<open>sec\<close> that has
  not been visited: the new store, and whether the section was resized.
\<close>

definition fitSection :: "string \<Rightarrow> store \<Rightarrow> store \<times> bool" where
  "fitSection sec h =
     (case el_children (h sec) of
        [] \<Rightarrow> (h, False)
      | c0 # rest \<Rightarrow>
         (let children = c0 # rest;
              minX = loopMin (el_x (h c0)) (map (\<lambda>c. el_x (h c)) rest);
              minY = loopMin (el_y (h c0)) (map (\<lambda>c. el_y (h c)) rest);
              maxX = loopMax (right_of h c0) (map (right_of h) rest);
              maxY = loopMax (bottom_of h c0) (map (bottom_of h) rest);
              shiftX = (if minX < SECTION_PADDING then SECTION_PADDING - minX else 0);
              shiftY = (if minY < SECTION_PADDING then SECTION_PADDING - minY else 0);
              shifted = (shiftX > 0 \<or> shiftY > 0);
              h1 = (if shifted then shiftChildren children shiftX shiftY h else h);
              maxX1 = (if shifted then maxX + shiftX else maxX);
              maxY1 = (if shifted then maxY + shiftY else maxY);
              newW = maxX1 + SECTION_PADDING;
              newH = maxY1 + SECTION_PADDING
          in if newW > el_width (h1 sec) \<or> newH > el_height (h1 sec)
             then (resizeWithoutConstraints sec (max newW (el_width (h1 sec)))
                     (max newH (el_height (h1 sec))) h1, True)
             else (h1, False)))"

text \<open>
  \<open>resizeParentSections\<close>: the loop over \<open>nodes\<close>, with the store, the
  \<open>visited\<close> ids and the \<open>resized\<close> ids as its state.
\<close>

fun resizeLoop :: "string list \<Rightarrow> store \<Rightarrow> string list \<Rightarrow> string list \<Rightarrow> store \<times> string list" where
  "resizeLoop [] h visited resized = (h, resized)"
| "resizeLoop (n # ns) h visited resized =
     (case el_parent (h n) of
        None \<Rightarrow> resizeLoop ns h visited resized
      | Some parent \<Rightarrow>
         if el_type (h parent) \<noteq> SECTION then resizeLoop ns h visited resized
         else if parent \<in> set visited then resizeLoop ns h visited resized
         else (case fitSection parent h of
                 (h', r) \<Rightarrow>
                   resizeLoop ns h' (parent # visited)
                     (if r then resized @ [parent] else resized)))"

definition resizeParentSections :: "string list \<Rightarrow> store \<Rightarrow> store \<times> string list" where
  "resizeParentSections ns h = resizeLoop ns h [] []"

subsection \<open>Alignment\<close>

text \<open>
  The \<open>switch\<close> of \<open>handleAlignElements\<close>, for \<open>nodes = n0 # rest\<close>. An
  alignment that is none of the six strings falls through the \<open>switch\<close>.
\<close>

definition alignNodes :: "string \<Rightarrow> string list \<Rightarrow> store \<Rightarrow> store" where
  "alignNodes alignment ns h =
     (case ns of
        [] \<Rightarrow> h
      | n0 # rest \<Rightarrow>
         if alignment = ''left'' then
           (let minX = loopMin (el_x (h n0)) (map (\<lambda>n. el_x (h n)) rest)
            in fold (\<lambda>n h. setX n minX h) ns h)
         else if alignment = ''right'' then
           (let maxRight = loopMax (right_of h n0) (map (right_of h) rest)
            in fold (\<lambda>n h. setX n (maxRight - el_width (h n)) h) ns h)
         else if alignment = ''center'' then
           (let sumCX = foldl (\<lambda>s n. s + (el_x (h n) + el_width (h n) / 2)) 0 ns;
                avgCX = sumCX / rat_of_nat (length ns)
            in fold (\<lambda>n h. setX n (avgCX - el_width (h n) / 2) h) ns h)
         else if alignment = ''top'' then
           (let minY = loopMin (el_y (h n0)) (map (\<lambda>n. el_y (h n)) rest)
            in fold (\<lambda>n h. setY n minY h) ns h)
         else if alignment = ''bottom'' then
           (let maxBottom = loopMax (bottom_of h n0) (map (bottom_of h) rest)
            in fold (\<lambda>n h. setY n (maxBottom - el_height (h n)) h) ns h)
         else if alignment = ''middle'' then
           (let sumCY = foldl (\<lambda>s n. s + (el_y (h n) + el_height (h n) / 2)) 0 ns;
                avgCY = sumCY / rat_of_nat (length ns)
            in fold (\<lambda>n h. setY n (avgCY - el_height (h n) / 2) h) ns h)
         else h)"

text \<open>
  \<open>handleAlignElements\<close>: the scene after the call, \<open>count\<close>, and
  \<open>resizedSections\<close> (absent from the result of the early return).
\<close>

definition handleAlignElements ::
  "scene \<Rightarrow> string list \<Rightarrow> string \<Rightarrow> scene \<times> nat \<times> string list option" where
  "handleAlignElements sc elementIds alignment =
     (let ns = resolveNodes sc elementIds in
      if length ns < 2 then (sc, length ns, None)
      else (case resizeParentSections ns (alignNodes alignment ns (nodes sc)) of
              (h, resized) \<Rightarrow> (sc\<lparr>nodes := h\<rparr>, length ns, Some resized)))"

subsection \<open>Distribution\<close>

text \<open>
  \<open>nodes.sort(function(a, b) { return a.x - b.x; })\<close>: ascending by the
  coordinate, equal coordinates in their former order.
\<close>

definition sortByX :: "store \<Rightarrow> string list \<Rightarrow> string list" where
  "sortByX h ns = sort_key (\<lambda>n. el_x (h n)) ns"

definition sortByY :: "store \<Rightarrow> string list \<Rightarrow> string list" where
  "sortByY h ns = sort_key (\<lambda>n. el_y (h n)) ns"

fun placeX :: "string list \<Rightarrow> rat \<Rightarrow> rat \<Rightarrow> store \<Rightarrow> store" where
  "placeX [] currentX gap h = h"
| "placeX (n # ns) currentX gap h =
     (let h' = setX n currentX h in placeX ns (currentX + (el_width (h' n) + gap)) gap h')"

fun placeY :: "string list \<Rightarrow> rat \<Rightarrow> rat \<Rightarrow> store \<Rightarrow> store" where
  "placeY [] currentY gap h = h"
| "placeY (n # ns) currentY gap h =
     (let h' = setY n currentY h in placeY ns (currentY + (el_height (h' n) + gap)) gap h')"

text \<open>
  The gap of a horizontal distribution of the sorted \<open>nodes\<close> (there are at least
  three), and of a vertical one.
\<close>

definition gapX :: "store \<Rightarrow> string list \<Rightarrow> rat \<Rightarrow> rat" where
  "gapX h ns minSpacing =
     (let firstLeft = el_x (h (ns ! 0));
          totalElementWidth = foldl (\<lambda>s n. s + el_width (h n)) 0 ns;
          lastRight = el_x (h (ns ! (length ns - 1))) + el_width (h (ns ! (length ns - 1)));
          naturalGap = ((lastRight - firstLeft) - totalElementWidth) / rat_of_nat (length ns - 1)
      in max naturalGap minSpacing)"

definition gapY :: "store \<Rightarrow> string list \<Rightarrow> rat \<Rightarrow> rat" where
  "gapY h ns minSpacing =
     (let firstTop = el_y (h (ns ! 0));
          totalElementHeight = foldl (\<lambda>s n. s + el_height (h n)) 0 ns;
          lastBottom = el_y (h (ns ! (length ns - 1))) + el_height (h (ns ! (length ns - 1)));
          naturalGapV = ((lastBottom - firstTop) - totalElementHeight) / rat_of_nat (length ns - 1)
      in max naturalGapV minSpacing)"

text \<open>
  The repositioning of \<open>handleDistributeElements\<close>: the sorted nodes, the gap used
  and the store after the placement loop.
\<close>

definition distributeNodes ::
  "string \<Rightarrow> rat \<Rightarrow> string list \<Rightarrow> store \<Rightarrow> string list \<times> rat \<times> store" where
  "distributeNodes direction minSpacing ns h =
     (if direction = ''horizontal'' then
        (let sortedNodes = sortByX h ns;
             gap = gapX h sortedNodes minSpacing
         in (sortedNodes, gap, placeX sortedNodes (el_x (h (sortedNodes ! 0))) gap h))
      else
        (let sortedNodes = sortByY h ns;
             gap = gapY h sortedNodes minSpacing
         in (sortedNodes, gap, placeY sortedNodes (el_y (h (sortedNodes ! 0))) gap h)))"

text \<open>
  \<open>handleDistributeElements\<close>: the scene after the call, \<open>count\<close>, and
  \<open>spacing\<close> with \<open>resizedSections\<close> (absent from the result of the early
  return). \<open>spacing\<close> is \<open>None\<close> when \<open>params.spacing\<close> is null or undefined.
\<close>

definition handleDistributeElements ::
  "scene \<Rightarrow> string list \<Rightarrow> string \<Rightarrow> rat option
     \<Rightarrow> scene \<times> nat \<times> (rat \<times> string list) option" where
  "handleDistributeElements sc elementIds direction spacing =
     (let minSpacing = (case spacing of None \<Rightarrow> 60 | Some v \<Rightarrow> v);
          ns = resolveNodes sc elementIds
      in if length ns < 3 then (sc, length ns, None)
         else (case distributeNodes direction minSpacing ns (nodes sc) of
                 (sortedNodes, gap, h) \<Rightarrow>
                   (case resizeParentSections sortedNodes h of
                      (h', resized) \<Rightarrow> (sc\<lparr>nodes := h'\<rparr>, length ns, Some (gap, resized)))))"




section \<open>Reading the report\<close>

text \<open>
  Whether the report holds an overlap issue that names the two elements \<open>i\<close> and
  \<open>j\<close>, in either order.
\<close>

definition overlapReported :: "issue list \<Rightarrow> string \<Rightarrow> string \<Rightarrow> bool" where
  "overlapReported issues i j =
     list_ex (\<lambda>iss. case iss of
                 Overlap a b r \<Rightarrow> (a = i \<and> b = j) \<or> (a = j \<and> b = i)
               | _ \<Rightarrow> False) issues"

text \<open>The condition under which the loop body pushes an overlap issue.\<close>

definition overlapCond :: "box \<Rightarrow> box \<Rightarrow> bool" where
  "overlapCond A B \<longleftrightarrow> box_nodeType A \<noteq> SECTION \<and> box_nodeType B \<noteq> SECTION \<and>
     overlapX A B \<and> overlapY A B \<and> overlapArea A B > smallerArea A B * (1 / 10)"

text \<open>Whether an issue is an overlap issue.\<close>

definition isOverlap :: "issue \<Rightarrow> bool" where
  "isOverlap iss = (case iss of Overlap i j r \<Rightarrow> True | _ \<Rightarrow> False)"



text \<open>A node without its children.\<close>

definition withoutChildren :: "node \<Rightarrow> node" where
  "withoutChildren n =
     Node (node_id n) (node_name n) (node_type n) (node_x n) (node_y n) (node_width n)
       (node_height n) (node_characters n) (node_fontSize n) (connectorStart n)
       (connectorEnd n) []"

section \<open>The Liang-Barsky test as the specification words it\<close>


section \<open>The page frame\<close>



section \<open>Relations between the store before and after a call\<close>

text \<open>The sections that own one of the nodes \<open>ns\<close>: the sections that auto-fit touches.\<close>

definition touchedSections :: "store \<Rightarrow> string list \<Rightarrow> string set" where
  "touchedSections h ns =
     {p. \<exists>n \<in> set ns. el_parent (h n) = Some p \<and> el_type (h p) = SECTION}"


text \<open>
  Relations between the store before and after a write: the structure (type, parent,
  children) is the same; the sizes are the same; no size has shrunk; only \<open>x\<close>, or only
  \<open>y\<close>, may differ, and only at the nodes \<open>ns\<close>.
\<close>

definition sameStructure :: "store \<Rightarrow> store \<Rightarrow> bool" where
  "sameStructure h h' \<longleftrightarrow>
     (\<forall>i. el_type (h' i) = el_type (h i) \<and> el_parent (h' i) = el_parent (h i) \<and>
          el_children (h' i) = el_children (h i))"

definition sameSizes :: "store \<Rightarrow> store \<Rightarrow> bool" where
  "sameSizes h h' \<longleftrightarrow>
     (\<forall>i. el_width (h' i) = el_width (h i) \<and> el_height (h' i) = el_height (h i))"

definition onlyX :: "string list \<Rightarrow> store \<Rightarrow> store \<Rightarrow> bool" where
  "onlyX ns h h' \<longleftrightarrow>
     sameStructure h h' \<and> sameSizes h h' \<and> (\<forall>i. el_y (h' i) = el_y (h i)) \<and>
     (\<forall>i. i \<notin> set ns \<longrightarrow> el_x (h' i) = el_x (h i))"

definition onlyY :: "string list \<Rightarrow> store \<Rightarrow> store \<Rightarrow> bool" where
  "onlyY ns h h' \<longleftrightarrow>
     sameStructure h h' \<and> sameSizes h h' \<and> (\<forall>i. el_x (h' i) = el_x (h i)) \<and>
     (\<forall>i. i \<notin> set ns \<longrightarrow> el_y (h' i) = el_y (h i))"












section \<open>Concrete scenes\<close>

text \<open>
  For the validator: a shape with no text, no endpoints and no children, a connector
  from the element \<open>s\<close> to the element \<open>e\<close>, and a section with the given children.
\<close>

definition shapeAt :: "string \<Rightarrow> rat \<Rightarrow> rat \<Rightarrow> rat \<Rightarrow> rat \<Rightarrow> node" where
  "shapeAt i x y w h = Node i i SHAPE_WITH_TEXT x y w h [] 14 None None []"

definition connectorBetween :: "string \<Rightarrow> string \<Rightarrow> string \<Rightarrow> node" where
  "connectorBetween i s e = Node i i CONNECTOR 0 0 0 0 [] 0 (Some s) (Some e) []"

definition sectionAt :: "string \<Rightarrow> rat \<Rightarrow> rat \<Rightarrow> rat \<Rightarrow> rat \<Rightarrow> node list \<Rightarrow> node" where
  "sectionAt i x y w h cs = Node i i SECTION x y w h [] 0 None None cs"

text \<open>
  For align and distribute: an element that is a child of \<open>parent\<close>, a section with
  its children, the scene whose nodes are the listed ones (any other reference holds an
  element that is not on the page), and the \<open>x\<close> coordinates of the listed nodes of a
  scene.
\<close>

definition elementAt :: "rat \<Rightarrow> rat \<Rightarrow> rat \<Rightarrow> rat \<Rightarrow> string option \<Rightarrow> element" where
  "elementAt x y w h parent =
     \<lparr>el_type = SHAPE_WITH_TEXT, el_x = x, el_y = y, el_width = w, el_height = h,
      el_parent = parent, el_children = []\<rparr>"

definition sectionElement :: "rat \<Rightarrow> rat \<Rightarrow> rat \<Rightarrow> rat \<Rightarrow> string list \<Rightarrow> element" where
  "sectionElement x y w h cs =
     \<lparr>el_type = SECTION, el_x = x, el_y = y, el_width = w, el_height = h,
      el_parent = None, el_children = cs\<rparr>"

definition sceneOf :: "(string \<times> element) list \<Rightarrow> scene" where
  "sceneOf l =
     \<lparr>nodes = (\<lambda>i. case map_of l i of Some e \<Rightarrow> e | None \<Rightarrow> elementAt 0 0 0 0 None),
      page_ids = set (map fst l)\<rparr>"

definition xsOf :: "scene \<Rightarrow> string list \<Rightarrow> rat list" where
  "xsOf sc ns = map (\<lambda>n. el_x (nodes sc n)) ns"

section \<open>Properties of the validator\<close>

subsection \<open>Rounding to a double\<close>

lemma exponentUp_bounds:
  "1 \<le> x \<Longrightarrow> 2 ^ exponentUp x \<le> x \<and> x < 2 * 2 ^ exponentUp x"
proof (induction x rule: exponentUp.induct)
  case (1 x)
  show ?case
  proof (cases "2 \<le> x")
    case True
    then have "1 \<le> x / 2" by simp
    from 1(1) [OF True this] have "2 ^ exponentUp (x / 2) \<le> x / 2 \<and> x / 2 < 2 * 2 ^ exponentUp (x / 2)" .
    moreover have "exponentUp x = Suc (exponentUp (x / 2))"
      using True by (subst exponentUp.simps) simp
    ultimately show ?thesis by simp
  next
    case False
    then have "exponentUp x = 0" by (subst exponentUp.simps) simp
    then show ?thesis using False 1(2) by simp
  qed
qed

lemma exponentDown_bounds:
  "0 < x \<Longrightarrow> x < 1 \<Longrightarrow> 1 \<le> x * 2 ^ exponentDown x \<and> x * 2 ^ exponentDown x < 2"
proof (induction x rule: exponentDown.induct)
  case (1 x)
  have e: "exponentDown x = Suc (exponentDown (2 * x))"
    using 1(2,3) by (subst exponentDown.simps) simp
  show ?case
  proof (cases "2 * x < 1")
    case True
    have "0 < 2 * x" using 1(2) by simp
    from 1(1) [OF _ this True] 1(2,3)
    have "1 \<le> 2 * x * 2 ^ exponentDown (2 * x) \<and> 2 * x * 2 ^ exponentDown (2 * x) < 2" by simp
    then show ?thesis by (simp add: e mult.assoc mult.left_commute)
  next
    case False
    then have "exponentDown (2 * x) = 0" by (subst exponentDown.simps) simp
    then show ?thesis using False 1(3) by (simp add: e)
  qed
qed

lemma exponent_bounds:
  assumes "0 < x"
  shows "2 powi exponent x \<le> x" and "x < 2 powi (exponent x + 1)"
proof -
  have "2 powi exponent x \<le> x \<and> x < 2 powi (exponent x + 1)"
  proof (cases "1 \<le> x")
    case True
    then have e: "exponent x = int (exponentUp x)" by (simp add: exponent_def)
    have "2 powi (int (exponentUp x) + 1) = (2::rat) * 2 ^ exponentUp x"
      by (simp add: power_int_add)
    then show ?thesis using exponentUp_bounds [OF True] by (simp add: e)
  next
    case False
    then have x1: "x < 1" by simp
    then have e: "exponent x = - int (exponentDown x)" by (simp add: exponent_def)
    let ?p = "(2::rat) ^ exponentDown x"
    have p: "0 < ?p" by simp
    from exponentDown_bounds [OF assms x1] have b: "1 \<le> x * ?p" "x * ?p < 2" by simp_all
    have a: "2 powi (- int (exponentDown x)) = 1 / ?p"
      by (simp add: power_int_minus_divide)
    have "(2::rat) powi (1 - int (exponentDown x)) = 2 powi 1 / 2 powi int (exponentDown x)"
      by (rule power_int_diff) simp
    then have c: "2 powi (1 - int (exponentDown x)) = 2 / ?p" by simp
    have "1 / ?p \<le> x" using b(1) p by (simp add: field_simps)
    moreover have "x < 2 / ?p" using b(2) p by (simp add: field_simps)
    ultimately show ?thesis by (simp add: e a c)
  qed
  then show "2 powi exponent x \<le> x" and "x < 2 powi (exponent x + 1)" by simp_all
qed

lemma exponent_mono:
  assumes "0 < x" "x \<le> y"
  shows "exponent x \<le> exponent y"
proof (rule ccontr)
  assume "\<not> exponent x \<le> exponent y"
  then have "exponent y + 1 \<le> exponent x" by simp
  then have "(2::rat) powi (exponent y + 1) \<le> 2 powi exponent x"
    by (intro power_int_increasing) simp_all
  moreover have "y < 2 powi (exponent y + 1)" using assms by (intro exponent_bounds) simp
  moreover have "2 powi exponent x \<le> x" using assms by (intro exponent_bounds)
  ultimately show False using assms(2) by linarith
qed

lemma ulp_pos: "0 < ulp x"
  by (simp add: ulp_def)

lemma significand_bounds:
  assumes "0 < x"
  shows "2 ^ 52 \<le> x / ulp x" and "x / ulp x < 2 ^ 53"
proof -
  have u: "ulp x * 2 ^ 52 = 2 powi exponent x"
    by (simp add: ulp_def power_int_diff)
  have v: "ulp x * 2 ^ 53 = 2 powi (exponent x + 1)"
    by (simp add: ulp_def power_int_diff power_int_add)
  have "2 ^ 52 * ulp x \<le> x" using exponent_bounds(1) [OF assms] u by (simp add: mult.commute)
  then show "2 ^ 52 \<le> x / ulp x" using ulp_pos [of x] by (simp add: pos_le_divide_eq)
  have "x < 2 ^ 53 * ulp x" using exponent_bounds(2) [OF assms] v by (simp add: mult.commute)
  then show "x / ulp x < 2 ^ 53" using ulp_pos [of x] by (simp add: pos_divide_less_eq)
qed

lemma roundHalfEven_cases:
  "roundHalfEven q = \<lfloor>q\<rfloor> \<and> q - rat_of_int \<lfloor>q\<rfloor> \<le> 1 / 2 \<or>
   roundHalfEven q = \<lfloor>q\<rfloor> + 1 \<and> 1 / 2 \<le> q - rat_of_int \<lfloor>q\<rfloor>"
  by (auto simp: roundHalfEven_def Let_def)

lemma roundHalfEven_error: "\<bar>rat_of_int (roundHalfEven q) - q\<bar> \<le> 1 / 2"
proof -
  have f: "rat_of_int \<lfloor>q\<rfloor> \<le> q" "q < rat_of_int \<lfloor>q\<rfloor> + 1" by linarith+
  from roundHalfEven_cases [of q] show ?thesis
  proof (elim disjE conjE)
    assume "roundHalfEven q = \<lfloor>q\<rfloor>" "q - rat_of_int \<lfloor>q\<rfloor> \<le> 1 / 2"
    then show ?thesis using f by simp
  next
    assume "roundHalfEven q = \<lfloor>q\<rfloor> + 1" "1 / 2 \<le> q - rat_of_int \<lfloor>q\<rfloor>"
    then show ?thesis using f by simp
  qed
qed

lemma roundHalfEven_of_int: "roundHalfEven (rat_of_int k) = k"
  by (simp add: roundHalfEven_def)

lemma roundHalfEven_mono:
  assumes "q \<le> r"
  shows "roundHalfEven q \<le> roundHalfEven r"
proof (cases "\<lfloor>q\<rfloor> = \<lfloor>r\<rfloor>")
  case True
  then show ?thesis using assms by (auto simp: roundHalfEven_def Let_def)
next
  case False
  then have "\<lfloor>q\<rfloor> + 1 \<le> \<lfloor>r\<rfloor>" using floor_mono [OF assms] by simp
  moreover have "roundHalfEven q \<le> \<lfloor>q\<rfloor> + 1" using roundHalfEven_cases [of q] by auto
  moreover have "\<lfloor>r\<rfloor> \<le> roundHalfEven r" using roundHalfEven_cases [of r] by auto
  ultimately show ?thesis by linarith
qed

lemma nearest_lower:
  assumes "0 < x"
  shows "2 powi exponent x \<le> nearest x"
proof -
  have "roundHalfEven (rat_of_int (2 ^ 52)) \<le> roundHalfEven (x / ulp x)"
    using significand_bounds(1) [OF assms] by (intro roundHalfEven_mono) simp
  then have "2 ^ 52 \<le> roundHalfEven (x / ulp x)" by (simp only: roundHalfEven_of_int)
  then have "rat_of_int (2 ^ 52) \<le> rat_of_int (roundHalfEven (x / ulp x))" by (simp only: of_int_le_iff)
  then have "2 ^ 52 * ulp x \<le> nearest x"
    unfolding nearest_def using ulp_pos [of x] by (intro mult_right_mono) simp_all
  moreover have "2 ^ 52 * ulp x = 2 powi exponent x" by (simp add: ulp_def power_int_diff)
  ultimately show ?thesis by simp
qed

lemma nearest_upper:
  assumes "0 < x"
  shows "nearest x \<le> 2 powi (exponent x + 1)"
proof -
  have "roundHalfEven (x / ulp x) \<le> roundHalfEven (rat_of_int (2 ^ 53))"
    using significand_bounds(2) [OF assms] by (intro roundHalfEven_mono) simp
  then have "roundHalfEven (x / ulp x) \<le> 2 ^ 53" by (simp only: roundHalfEven_of_int)
  then have "rat_of_int (roundHalfEven (x / ulp x)) \<le> rat_of_int (2 ^ 53)" by (simp only: of_int_le_iff)
  then have "nearest x \<le> 2 ^ 53 * ulp x"
    unfolding nearest_def using ulp_pos [of x] by (intro mult_right_mono) simp_all
  moreover have "2 ^ 53 * ulp x = 2 powi (exponent x + 1)"
    by (simp add: ulp_def power_int_diff power_int_add)
  ultimately show ?thesis by simp
qed

lemma nearest_mono:
  assumes "0 < x" "x \<le> y"
  shows "nearest x \<le> nearest y"
proof (cases "exponent x = exponent y")
  case True
  then have u: "ulp x = ulp y" by (simp add: ulp_def)
  have "x / ulp y \<le> y / ulp y" using assms(2) ulp_pos [of y] by (simp add: divide_right_mono)
  then have "roundHalfEven (x / ulp y) \<le> roundHalfEven (y / ulp y)" by (rule roundHalfEven_mono)
  then show ?thesis unfolding nearest_def u using ulp_pos [of y] by (intro mult_right_mono) simp_all
next
  case False
  then have "exponent x + 1 \<le> exponent y" using exponent_mono [OF assms] by simp
  then have "(2::rat) powi (exponent x + 1) \<le> 2 powi exponent y"
    by (intro power_int_increasing) simp_all
  moreover have "nearest x \<le> 2 powi (exponent x + 1)" by (rule nearest_upper [OF assms(1)])
  moreover have "2 powi exponent y \<le> nearest y" using assms by (intro nearest_lower) simp
  ultimately show ?thesis by linarith
qed

lemma nearest_pos:
  assumes "0 < x"
  shows "0 < nearest x"
proof -
  have "0 < (2::rat) powi exponent x" by simp
  then show ?thesis using nearest_lower [OF assms] by linarith
qed

lemma double_mono:
  assumes "x \<le> y"
  shows "double x \<le> double y"
proof -
  consider "0 < x" | "x = 0" | "x < 0" "y < 0" | "x < 0" "0 \<le> y" by linarith
  then show ?thesis
  proof cases
    case 1
    then show ?thesis using assms nearest_mono [of x y] by (simp add: double_def)
  next
    case 2
    then show ?thesis using assms nearest_pos [of y] by (auto simp: double_def less_imp_le)
  next
    case 3
    then have "nearest (- y) \<le> nearest (- x)" using assms by (intro nearest_mono) simp_all
    then show ?thesis using 3 by (simp add: double_def)
  next
    case 4
    have "0 < nearest (- x)" using 4(1) by (intro nearest_pos) simp
    then have "double x \<le> 0" using 4(1) by (simp add: double_def)
    moreover have "0 \<le> double y" using 4(2) nearest_pos [of y] by (auto simp: double_def less_imp_le)
    ultimately show ?thesis by simp
  qed
qed

lemma nearest_error:
  assumes "0 < x"
  shows "\<bar>nearest x - x\<bar> \<le> x / 2 ^ 53"
proof -
  have u: "0 < ulp x" by (rule ulp_pos)
  have "nearest x - x = (rat_of_int (roundHalfEven (x / ulp x)) - x / ulp x) * ulp x"
    using u by (simp add: nearest_def field_simps)
  then have "\<bar>nearest x - x\<bar> = \<bar>rat_of_int (roundHalfEven (x / ulp x)) - x / ulp x\<bar> * ulp x"
    using u by (simp add: abs_mult)
  also have "\<dots> \<le> 1 / 2 * ulp x"
    using u roundHalfEven_error [of "x / ulp x"] by (intro mult_right_mono) simp_all
  also have "\<dots> \<le> x / 2 ^ 53"
  proof -
    have "2 ^ 52 * ulp x \<le> x"
      using significand_bounds(1) [OF assms] u by (simp add: pos_le_divide_eq)
    then show ?thesis by simp
  qed
  finally show ?thesis .
qed

lemma double_error: "\<bar>double x - x\<bar> \<le> \<bar>x\<bar> / 2 ^ 53"
proof -
  consider "0 < x" | "x = 0" | "x < 0" by linarith
  then show ?thesis
  proof cases
    case 1
    then show ?thesis using nearest_error [of x] by (simp add: double_def)
  next
    case 2
    then show ?thesis by (simp add: double_def)
  next
    case 3
    then have "\<bar>nearest (- x) - (- x)\<bar> \<le> (- x) / 2 ^ 53" by (intro nearest_error) simp
    moreover have "\<bar>- nearest (- x) - x\<bar> = \<bar>nearest (- x) - (- x)\<bar>" by (simp add: abs_minus_commute)
    ultimately show ?thesis using 3 by (simp add: double_def)
  qed
qed

lemma double_nonneg: "0 \<le> x \<Longrightarrow> 0 \<le> double x"
  using nearest_pos [of x] by (auto simp: double_def less_imp_le)

lemma double_pos: "0 < x \<Longrightarrow> 0 < double x"
  using nearest_pos [of x] by (simp add: double_def)

lemma double_near:
  assumes "\<bar>x\<bar> \<le> 2 ^ 53"
  shows "\<bar>double x - x\<bar> \<le> 1"
proof -
  have "\<bar>x\<bar> / 2 ^ 53 \<le> 1" using assms by simp
  then show ?thesis using double_error [of x] by linarith
qed

subsection \<open>Rounding, and evaluation on concrete scenes\<close>

lemma floor_rat_numeral: "\<lfloor>numeral a / numeral b :: rat\<rfloor> = numeral a div numeral b"
  using floor_divide_of_int_eq [of "numeral a" "numeral b", where ?'a = rat] by simp

lemma floor_rat_neg_numeral:
  "\<lfloor>- (numeral a / numeral b) :: rat\<rfloor> = - numeral a div numeral b"
  using floor_divide_of_int_eq [of "- numeral a" "numeral b", where ?'a = rat] by simp

lemma ceiling_rat_numeral:
  "\<lceil>numeral a / numeral b :: rat\<rceil> = - (- numeral a div numeral b)"
  using ceiling_divide_eq_div [of "numeral a" "numeral b", where ?'a = rat] by simp

lemma ceiling_rat_neg_numeral:
  "\<lceil>- (numeral a / numeral b) :: rat\<rceil> = - (numeral a div numeral b)"
  using ceiling_divide_eq_div [of "- numeral a" "numeral b", where ?'a = rat] by simp

lemmas rat_rounding =
  floor_rat_numeral floor_rat_neg_numeral ceiling_rat_numeral ceiling_rat_neg_numeral

lemmas double_eval = double_def nearest_def ulp_def exponent_def exponentUp.simps
  exponentDown.simps roundHalfEven_def Let_def

lemma Math_round_of_int: "Math_round (rat_of_int k) = k"
  by (simp add: Math_round_def) linarith

lemmas validator_defs =
  handleValidateLayout_def collectBoxes_def toBox_def truncationIssues_def truncated_def
  overlapIssues_def overlapPair_def overlapX_def overlapY_def overlapArea_def smallerArea_def
  gapIssues_def pathIssues_def resolveEndpoints_def findNodeById_def findAll_def
  tightConnector_def gapH_def gapV_def effectiveGap_def MIN_CONNECTOR_GAP_def moveDirOf_def
  moveAmount_def throughShape_def segmentHitsBox_def centerX_def centerY_def
  bleedIssues_def structuralBleed_def structuralBleeds_def visualBleed_def visualBleeds_def
  SECTION_PADDING_def Math_round_def Let_def

lemmas scene_defs = shapeAt_def connectorBetween_def sectionAt_def

lemmas store_defs =
  handleDistributeElements_def handleAlignElements_def resolveNodes_def distributeNodes_def
  sortByX_def sortByY_def gapX_def gapY_def setX_def setY_def resizeParentSections_def
  sceneOf_def elementAt_def sectionElement_def xsOf_def Let_def

subsection \<open>The page frame\<close>






subsection \<open>Overlap\<close>

lemma overlapPair_mem:
  "iss \<in> set (overlapPair A B) \<longleftrightarrow>
     iss = Overlap (box_id A) (box_id B) (Math_round (overlapArea A B)) \<and> overlapCond A B"
  by (auto simp: overlapPair_def overlapCond_def)

lemma overlapIssues_mem:
  "iss \<in> set (overlapIssues boxes) \<longleftrightarrow>
     (\<exists>a b. a < b \<and> b < length boxes \<and> iss \<in> set (overlapPair (boxes ! a) (boxes ! b)))"
proof -
  have "iss \<in> set (overlapIssues boxes) \<longleftrightarrow>
     (\<exists>a. a < length boxes \<and> (\<exists>b. (a < b \<and> b < length boxes) \<and> iss \<in> set (overlapPair (boxes ! a) (boxes ! b))))"
    by (simp add: overlapIssues_def Bex_def Suc_le_eq)
  also have "\<dots> \<longleftrightarrow> (\<exists>a b. a < b \<and> b < length boxes \<and> iss \<in> set (overlapPair (boxes ! a) (boxes ! b)))"
    using less_trans by blast
  finally show ?thesis .
qed

lemma overlapArea_sym: "overlapArea A B = overlapArea B A"
  by (simp add: overlapArea_def Let_def max.commute min.commute)

lemma smallerArea_sym: "smallerArea A B = smallerArea B A"
  by (simp add: smallerArea_def min.commute)

lemma overlapX_sym: "overlapX A B = overlapX B A"
  by (auto simp: overlapX_def)

lemma overlapY_sym: "overlapY A B = overlapY B A"
  by (auto simp: overlapY_def)

lemma overlapCond_sym: "overlapCond A B = overlapCond B A"
  unfolding overlapCond_def
  using overlapArea_sym [of A B] smallerArea_sym [of A B] overlapX_sym [of A B] overlapY_sym [of A B]
  by auto

lemma overlapIssues_names_iff:
  assumes d: "distinct (map box_id boxes)" and A: "A \<in> set boxes" and B: "B \<in> set boxes"
    and ne: "A \<noteq> B"
  shows "(\<exists>r. Overlap (box_id A) (box_id B) r \<in> set (overlapIssues boxes) \<or>
              Overlap (box_id B) (box_id A) r \<in> set (overlapIssues boxes)) \<longleftrightarrow> overlapCond A B"
proof -
  from A obtain i where i: "i < length boxes" "boxes ! i = A" by (auto simp: in_set_conv_nth)
  from B obtain j where j: "j < length boxes" "boxes ! j = B" by (auto simp: in_set_conv_nth)
  from ne i j have ij: "i \<noteq> j" by auto
  have idx: "k = l" if "k < length boxes" "l < length boxes"
      "box_id (boxes ! k) = box_id (boxes ! l)" for k l
    using that d nth_eq_iff_index_eq [of "map box_id boxes" k l] by simp
  show ?thesis
  proof
    assume "\<exists>r. Overlap (box_id A) (box_id B) r \<in> set (overlapIssues boxes) \<or>
              Overlap (box_id B) (box_id A) r \<in> set (overlapIssues boxes)"
    then obtain r a b where ab: "a < b" "b < length boxes" "overlapCond (boxes ! a) (boxes ! b)"
      "(box_id (boxes ! a) = box_id A \<and> box_id (boxes ! b) = box_id B) \<or>
        (box_id (boxes ! a) = box_id B \<and> box_id (boxes ! b) = box_id A)"
      unfolding overlapIssues_mem overlapPair_mem by auto
    have al: "a < length boxes" using ab(1,2) by simp
    have "(a = i \<and> b = j) \<or> (a = j \<and> b = i)"
      using ab(4) idx [OF al i(1)] idx [OF al j(1)] idx [OF ab(2) i(1)] idx [OF ab(2) j(1)] i(2) j(2)
      by auto
    then show "overlapCond A B" using ab(3) i j overlapCond_sym by auto
  next
    assume c: "overlapCond A B"
    show "\<exists>r. Overlap (box_id A) (box_id B) r \<in> set (overlapIssues boxes) \<or>
              Overlap (box_id B) (box_id A) r \<in> set (overlapIssues boxes)"
    proof (cases "i < j")
      case True
      have "Overlap (box_id A) (box_id B) (Math_round (overlapArea A B)) \<in> set (overlapIssues boxes)"
        unfolding overlapIssues_mem overlapPair_mem using True i j c by blast
      then show ?thesis by blast
    next
      case False
      with ij have ji: "j < i" by simp
      have "Overlap (box_id B) (box_id A) (Math_round (overlapArea B A)) \<in> set (overlapIssues boxes)"
        unfolding overlapIssues_mem overlapPair_mem using ji i j c overlapCond_sym by blast
      then show ?thesis by blast
    qed
  qed
qed

text \<open>Which part of the report an issue of each kind comes from.\<close>

lemma Overlap_notin_truncation: "Overlap i j r \<notin> set (concat (map truncationIssues page))"
  by (auto simp: truncationIssues_def)

lemma Overlap_notin_gap: "Overlap i j r \<notin> set (gapIssues page)"
  by (auto simp: gapIssues_def tightConnector_def Let_def split: if_splits option.splits)

lemma Overlap_notin_path: "Overlap i j r \<notin> set (pathIssues page boxes)"
  by (auto simp: pathIssues_def throughShape_def split: if_splits option.splits)

lemma Overlap_notin_bleed: "Overlap i j r \<notin> set (bleedIssues page boxes)"
  by (auto simp: bleedIssues_def structuralBleed_def visualBleed_def Let_def split: if_splits)

lemma Overlap_in_report:
  "Overlap i j r \<in> set (handleValidateLayout page) \<longleftrightarrow>
     Overlap i j r \<in> set (overlapIssues (collectBoxes page))"
  using Overlap_notin_truncation Overlap_notin_gap Overlap_notin_path Overlap_notin_bleed
  by (simp add: handleValidateLayout_def Let_def)

lemma overlapReported_iff:
  "overlapReported issues i j \<longleftrightarrow>
     (\<exists>r. Overlap i j r \<in> set issues \<or> Overlap j i r \<in> set issues)"
proof -
  have "overlapReported issues i j \<longleftrightarrow>
      (\<exists>iss \<in> set issues. \<exists>r. iss = Overlap i j r \<or> iss = Overlap j i r)"
    unfolding overlapReported_def list_ex_iff
    by (intro bex_cong refl) (auto split: issue.splits)
  then show ?thesis by blast
qed

lemma distinct_collectBoxes:
  "distinct (map node_id page) \<Longrightarrow> distinct (map box_id (collectBoxes page))"
proof -
  assume d: "distinct (map node_id page)"
  have "map box_id (collectBoxes page) = map node_id (filter (\<lambda>n. node_type n \<noteq> CONNECTOR) page)"
    by (simp add: collectBoxes_def toBox_def comp_def)
  then show ?thesis using d by (simp add: distinct_map_filter)
qed

lemma toBox_inj: "distinct (map node_id page) \<Longrightarrow> n \<in> set page \<Longrightarrow> m \<in> set page \<Longrightarrow> n \<noteq> m
   \<Longrightarrow> toBox n \<noteq> toBox m"
proof -
  assume d: "distinct (map node_id page)" and nm: "n \<in> set page" "m \<in> set page" "n \<noteq> m"
  from d have "inj_on node_id (set page)" by (simp add: distinct_map)
  with nm have "node_id n \<noteq> node_id m" by (auto dest: inj_onD)
  then have "box_id (toBox n) \<noteq> box_id (toBox m)" by (simp add: toBox_def)
  then show "toBox n \<noteq> toBox m" by auto
qed

lemma overlap_page_iff:
  assumes "distinct (map node_id page)" "n \<in> set page" "m \<in> set page" "n \<noteq> m"
    "node_type n \<noteq> CONNECTOR" "node_type m \<noteq> CONNECTOR"
  shows "overlapReported (handleValidateLayout page) (node_id n) (node_id m) \<longleftrightarrow>
          overlapCond (toBox n) (toBox m)"
proof -
  have A: "toBox n \<in> set (collectBoxes page)" and B: "toBox m \<in> set (collectBoxes page)"
    using assms by (auto simp: collectBoxes_def)
  have ids: "box_id (toBox n) = node_id n" "box_id (toBox m) = node_id m"
    by (simp_all add: toBox_def)
  show ?thesis
    unfolding overlapReported_iff Overlap_in_report
    using overlapIssues_names_iff [OF distinct_collectBoxes [OF assms(1)] A B toBox_inj [OF assms(1-4)]]
    unfolding ids .
qed

text \<open>
  Claim C1, as amended. Let \<open>n\<close> and \<open>m\<close> be two different top-level elements of a
  page whose top-level ids are distinct, neither a connector nor a section. The report
  holds an overlap issue naming the two if and only if their bounding boxes intersect
  and the area of the intersection rectangle is strictly greater than one tenth of the
  smaller of the two areas. The area that the source computes is the area of that
  rectangle and is symmetric, and whether the pair is reported is the same for every
  other order \<open>page'\<close> of the same top-level elements.
\<close>

theorem overlap_reported_iff_threshold:
  assumes "distinct (map node_id page)" and "n \<in> set page" and "m \<in> set page" and "n \<noteq> m"
    and "node_type n \<noteq> CONNECTOR" and "node_type m \<noteq> CONNECTOR"
    and "node_type n \<noteq> SECTION" and "node_type m \<noteq> SECTION"
  shows "(overlapReported (handleValidateLayout page) (node_id n) (node_id m) \<longleftrightarrow>
            node_x n < node_x m + node_width m \<and> node_x m < node_x n + node_width n \<and>
            node_y n < node_y m + node_height m \<and> node_y m < node_y n + node_height n \<and>
            (min (node_x n + node_width n) (node_x m + node_width m) - max (node_x n) (node_x m)) *
            (min (node_y n + node_height n) (node_y m + node_height m) - max (node_y n) (node_y m))
              > min (node_width n * node_height n) (node_width m * node_height m) * (1 / 10)) \<and>
         overlapArea (toBox n) (toBox m) =
            (min (node_x n + node_width n) (node_x m + node_width m) - max (node_x n) (node_x m)) *
            (min (node_y n + node_height n) (node_y m + node_height m) - max (node_y n) (node_y m)) \<and>
         overlapArea (toBox n) (toBox m) = overlapArea (toBox m) (toBox n) \<and>
         (\<forall>page'. set page' = set page \<and> distinct (map node_id page') \<longrightarrow>
            overlapReported (handleValidateLayout page') (node_id n) (node_id m) =
            overlapReported (handleValidateLayout page) (node_id n) (node_id m))"
proof (intro conjI allI impI)
  have "overlapCond (toBox n) (toBox m) \<longleftrightarrow>
            node_x n < node_x m + node_width m \<and> node_x m < node_x n + node_width n \<and>
            node_y n < node_y m + node_height m \<and> node_y m < node_y n + node_height n \<and>
            (min (node_x n + node_width n) (node_x m + node_width m) - max (node_x n) (node_x m)) *
            (min (node_y n + node_height n) (node_y m + node_height m) - max (node_y n) (node_y m))
              > min (node_width n * node_height n) (node_width m * node_height m) * (1 / 10)"
    using assms(7,8)
    by (simp add: overlapCond_def overlapX_def overlapY_def overlapArea_def smallerArea_def
          toBox_def Let_def)
  then show "overlapReported (handleValidateLayout page) (node_id n) (node_id m) \<longleftrightarrow>
            node_x n < node_x m + node_width m \<and> node_x m < node_x n + node_width n \<and>
            node_y n < node_y m + node_height m \<and> node_y m < node_y n + node_height n \<and>
            (min (node_x n + node_width n) (node_x m + node_width m) - max (node_x n) (node_x m)) *
            (min (node_y n + node_height n) (node_y m + node_height m) - max (node_y n) (node_y m))
              > min (node_width n * node_height n) (node_width m * node_height m) * (1 / 10)"
    using overlap_page_iff [OF assms(1-6)] by simp
  show "overlapArea (toBox n) (toBox m) =
            (min (node_x n + node_width n) (node_x m + node_width m) - max (node_x n) (node_x m)) *
            (min (node_y n + node_height n) (node_y m + node_height m) - max (node_y n) (node_y m))"
    by (simp add: overlapArea_def toBox_def Let_def)
  show "overlapArea (toBox n) (toBox m) = overlapArea (toBox m) (toBox n)"
    by (rule overlapArea_sym)
next
  fix page' assume p: "set page' = set page \<and> distinct (map node_id page')"
  then have s: "set page' = set page" and d: "distinct (map node_id page')" by simp_all
  show "overlapReported (handleValidateLayout page') (node_id n) (node_id m) =
            overlapReported (handleValidateLayout page) (node_id n) (node_id m)"
    using overlap_page_iff [OF assms(1-6)] overlap_page_iff [OF d _ _ assms(4-6)] assms(2,3) s
    by simp
qed

text \<open>
  Two 100 by 100 boxes that share a 10 by 100 strip (area 1000, one tenth of 10000) are
  not reported; with a strip of 10.1 by 100 they are, in either order of the input.
\<close>

theorem overlap_reported_iff_threshold_witness:
  "\<not> overlapReported (handleValidateLayout
        [shapeAt ''a'' 0 0 100 100, shapeAt ''b'' 90 0 100 100]) ''a'' ''b'' \<and>
   overlapReported (handleValidateLayout
        [shapeAt ''a'' 0 0 100 100, shapeAt ''b'' (899 / 10) 0 100 100]) ''a'' ''b'' \<and>
   overlapReported (handleValidateLayout
        [shapeAt ''b'' (899 / 10) 0 100 100, shapeAt ''a'' 0 0 100 100]) ''a'' ''b''"
  using overlap_reported_iff_threshold
          [of "[shapeAt ''a'' 0 0 100 100, shapeAt ''b'' 90 0 100 100]"
              "shapeAt ''a'' 0 0 100 100" "shapeAt ''b'' 90 0 100 100"]
        overlap_reported_iff_threshold
          [of "[shapeAt ''a'' 0 0 100 100, shapeAt ''b'' (899 / 10) 0 100 100]"
              "shapeAt ''a'' 0 0 100 100" "shapeAt ''b'' (899 / 10) 0 100 100"]
        overlap_reported_iff_threshold
          [of "[shapeAt ''b'' (899 / 10) 0 100 100, shapeAt ''a'' 0 0 100 100]"
              "shapeAt ''a'' 0 0 100 100" "shapeAt ''b'' (899 / 10) 0 100 100"]
  by (simp add: shapeAt_def)

text \<open>
  The claim as stated, for every pair of elements, fails for the children of a section.
  The shapes \<open>a\<close> and \<open>b\<close> are children of the section \<open>S\<close>; neither is a connector or a
  section, their boxes intersect in a rectangle of 80 by 100, and 8000 is more than one
  tenth of 10000: no overlap issue names them, and the report is empty.
\<close>

theorem overlap_in_section_counterexample:
  "\<not> overlapReported (handleValidateLayout
        [sectionAt ''S'' 0 0 600 400
           [shapeAt ''a'' 100 100 100 100, shapeAt ''b'' 120 100 100 100]]) ''a'' ''b'' \<and>
   handleValidateLayout
        [sectionAt ''S'' 0 0 600 400
           [shapeAt ''a'' 100 100 100 100, shapeAt ''b'' 120 100 100 100]] = [] \<and>
   overlapCond (toBox (shapeAt ''a'' 100 100 100 100)) (toBox (shapeAt ''b'' 120 100 100 100)) \<and>
   overlapArea (toBox (shapeAt ''a'' 100 100 100 100)) (toBox (shapeAt ''b'' 120 100 100 100))
     = 8000 \<and>
   smallerArea (toBox (shapeAt ''a'' 100 100 100 100)) (toBox (shapeAt ''b'' 120 100 100 100))
     = 10000"
  by (simp add: validator_defs scene_defs overlapReported_def overlapCond_def rat_rounding)

subsection \<open>Connector gap\<close>


lemma distinct_ids_inj:
  "distinct (map node_id xs) \<Longrightarrow> x \<in> set xs \<Longrightarrow> y \<in> set xs \<Longrightarrow> node_id x = node_id y \<Longrightarrow> x = y"
  by (auto simp: distinct_map dest: inj_onD)

lemma tightConnector_cases:
  "tightConnector conn s e =
     (if 0 \<le> effectiveGap (gapH s e) (gapV s e) \<and> effectiveGap (gapH s e) (gapV s e) < 80
      then [TightConnector (node_id conn) (node_id e) (Math_round (effectiveGap (gapH s e) (gapV s e)))
              (moveDirOf (gapH s e) (gapV s e))
              (Math_round (80 - effectiveGap (gapH s e) (gapV s e)))]
      else [])"
  by (simp add: tightConnector_def Let_def MIN_CONNECTOR_GAP_def moveAmount_def)




















subsection \<open>Connector path\<close>



lemma Max_insert_max:
  "finite A \<Longrightarrow> Max (insert (max u t) A) = max u (Max (insert t A))" for u t :: rat
  by (cases "A = {}") (simp_all add: max.assoc)

lemma Min_insert_min:
  "finite A \<Longrightarrow> Min (insert (min u t) A) = min u (Min (insert t A))" for u t :: rat
  by (cases "A = {}") (simp_all add: min.assoc)





lemma self_in_subtree: "n \<in> set (subtree n)"
  by (cases n) simp

lemma page_subset_findAll: "n \<in> set page \<Longrightarrow> n \<in> set (findAll page)"
  unfolding findAll_def set_concat set_map using self_in_subtree by blast

lemma throughShape_mem:
  "iss \<in> set (throughShape cn s e bx) \<longleftrightarrow>
     iss = ConnectorThroughShape (node_id cn) (box_id bx) \<and>
     box_nodeType bx \<noteq> SECTION \<and> box_nodeType bx \<noteq> TEXT \<and>
     box_id bx \<noteq> node_id s \<and> box_id bx \<noteq> node_id e \<and>
     segmentHitsBox (centerX s) (centerY s) (centerX e) (centerY e) bx"
  by (auto simp: throughShape_def)

lemma pathIssues_mem:
  "iss \<in> set (pathIssues page boxes) \<longleftrightarrow>
     (\<exists>cn s e bx. cn \<in> set (findAll page) \<and> node_type cn = CONNECTOR \<and>
        resolveEndpoints page cn = Some (s, e) \<and> bx \<in> set boxes \<and>
        iss \<in> set (throughShape cn s e bx))"
proof
  assume "iss \<in> set (pathIssues page boxes)"
  then obtain cn where cn: "cn \<in> set (findAll page)" and
    i: "iss \<in> set (if node_type cn \<noteq> CONNECTOR then []
        else (case resolveEndpoints page cn of
                None \<Rightarrow> []
              | Some (sn2, en2) \<Rightarrow> concat (map (throughShape cn sn2 en2) boxes)))"
    unfolding pathIssues_def set_concat set_map by blast
  from i have t: "node_type cn = CONNECTOR" by (cases "node_type cn = CONNECTOR") simp_all
  from i t obtain s e where r: "resolveEndpoints page cn = Some (s, e)"
    by (cases "resolveEndpoints page cn") auto
  from i t r obtain bx where "bx \<in> set boxes" "iss \<in> set (throughShape cn s e bx)"
    by auto
  with cn t r show "\<exists>cn s e bx. cn \<in> set (findAll page) \<and> node_type cn = CONNECTOR \<and>
        resolveEndpoints page cn = Some (s, e) \<and> bx \<in> set boxes \<and>
        iss \<in> set (throughShape cn s e bx)" by blast
next
  assume "\<exists>cn s e bx. cn \<in> set (findAll page) \<and> node_type cn = CONNECTOR \<and>
        resolveEndpoints page cn = Some (s, e) \<and> bx \<in> set boxes \<and>
        iss \<in> set (throughShape cn s e bx)"
  then obtain cn s e bx where h: "cn \<in> set (findAll page)" "node_type cn = CONNECTOR"
      "resolveEndpoints page cn = Some (s, e)" "bx \<in> set boxes"
      "iss \<in> set (throughShape cn s e bx)" by blast
  then have "iss \<in> set (if node_type cn \<noteq> CONNECTOR then []
        else (case resolveEndpoints page cn of
                None \<Rightarrow> []
              | Some (sn2, en2) \<Rightarrow> concat (map (throughShape cn sn2 en2) boxes)))"
    by auto
  with h(1) show "iss \<in> set (pathIssues page boxes)"
    unfolding pathIssues_def set_concat set_map by blast
qed

lemma Through_notin_truncation:
  "ConnectorThroughShape c b \<notin> set (concat (map truncationIssues page))"
  by (auto simp: truncationIssues_def)

lemma Through_notin_overlap: "ConnectorThroughShape c b \<notin> set (overlapIssues boxes)"
  by (simp add: overlapIssues_mem overlapPair_mem)

lemma Through_notin_gap: "ConnectorThroughShape c b \<notin> set (gapIssues page)"
  by (auto simp: gapIssues_def tightConnector_cases split: if_splits option.splits)

lemma Through_notin_bleed: "ConnectorThroughShape c b \<notin> set (bleedIssues page boxes)"
  by (auto simp: bleedIssues_def structuralBleed_def visualBleed_def Let_def split: if_splits)

lemma Through_in_report:
  "ConnectorThroughShape c b \<in> set (handleValidateLayout page) \<longleftrightarrow>
     ConnectorThroughShape c b \<in> set (pathIssues page (collectBoxes page))"
  using Through_notin_truncation Through_notin_overlap Through_notin_gap Through_notin_bleed
  by (simp add: handleValidateLayout_def Let_def)

lemma through_page_iff:
  assumes d: "distinct (map node_id (findAll page))" and cn: "cn \<in> set (findAll page)"
    and t: "node_type cn = CONNECTOR" and r: "resolveEndpoints page cn = Some (sn, en)"
    and b: "b \<in> set page" and bt: "node_type b \<noteq> CONNECTOR"
  shows "ConnectorThroughShape (node_id cn) (node_id b) \<in> set (handleValidateLayout page) \<longleftrightarrow>
      node_type b \<noteq> SECTION \<and> node_type b \<noteq> TEXT \<and>
      node_id b \<noteq> node_id sn \<and> node_id b \<noteq> node_id en \<and>
      segmentHitsBox (centerX sn) (centerY sn) (centerX en) (centerY en) (toBox b)"
proof
  assume "ConnectorThroughShape (node_id cn) (node_id b) \<in> set (handleValidateLayout page)"
  then obtain cn' s e bx where h: "cn' \<in> set (findAll page)" "node_type cn' = CONNECTOR"
      "resolveEndpoints page cn' = Some (s, e)" "bx \<in> set (collectBoxes page)"
      "ConnectorThroughShape (node_id cn) (node_id b) \<in> set (throughShape cn' s e bx)"
    unfolding Through_in_report pathIssues_mem by blast
  from h(4) obtain b' where b': "b' \<in> set page" "bx = toBox b'"
    by (auto simp: collectBoxes_def)
  from h(5) have ids: "node_id cn' = node_id cn" "box_id bx = node_id b"
    by (simp_all add: throughShape_mem)
  have "cn' = cn" using distinct_ids_inj [OF d h(1) cn ids(1)] .
  with h(3) r have se: "s = sn" "e = en" by simp_all
  have "node_id b' = node_id b" using ids(2) b'(2) by (simp add: toBox_def)
  then have "b' = b"
    using distinct_ids_inj [OF d page_subset_findAll [OF b'(1)] page_subset_findAll [OF b]]
    by simp
  with h(5) b'(2) se show "node_type b \<noteq> SECTION \<and> node_type b \<noteq> TEXT \<and>
      node_id b \<noteq> node_id sn \<and> node_id b \<noteq> node_id en \<and>
      segmentHitsBox (centerX sn) (centerY sn) (centerX en) (centerY en) (toBox b)"
    by (simp add: throughShape_mem toBox_def)
next
  assume a: "node_type b \<noteq> SECTION \<and> node_type b \<noteq> TEXT \<and>
      node_id b \<noteq> node_id sn \<and> node_id b \<noteq> node_id en \<and>
      segmentHitsBox (centerX sn) (centerY sn) (centerX en) (centerY en) (toBox b)"
  have m: "toBox b \<in> set (collectBoxes page)" using b bt by (simp add: collectBoxes_def)
  have "ConnectorThroughShape (node_id cn) (node_id b) \<in> set (throughShape cn sn en (toBox b))"
    using a by (simp add: throughShape_mem toBox_def)
  with cn t r m show
    "ConnectorThroughShape (node_id cn) (node_id b) \<in> set (handleValidateLayout page)"
    unfolding Through_in_report pathIssues_mem by blast
qed




subsection \<open>Text truncation\<close>

lemma resize_fields:
  "node_type (resize n w h) = node_type n"
  "node_characters (resize n w h) = node_characters n"
  "node_fontSize (resize n w h) = node_fontSize n"
  "node_width (resize n w h) = w"
  "node_height (resize n w h) = h"
  "node_id (resize n w h) = node_id n"
  by (simp_all add: resize_def)

lemma effectiveFontSize_resize: "effectiveFontSize (resize n w h) = effectiveFontSize n"
  by (simp add: effectiveFontSize_def resize_fields)

lemma effectiveFontSize_pos: "0 \<le> node_fontSize n \<Longrightarrow> 0 < effectiveFontSize n"
  by (simp add: effectiveFontSize_def)

lemma effectiveFontSize_le:
  "node_fontSize n \<le> 1048576 \<Longrightarrow> effectiveFontSize n \<le> 1048576"
  by (simp add: effectiveFontSize_def)

lemma charWidth_resize: "charWidth (resize n w h) = charWidth n"
  by (simp add: charWidth_def effectiveFontSize_resize)

lemma lineHeight_resize: "lineHeight (resize n w h) = lineHeight n"
  by (simp add: lineHeight_def effectiveFontSize_resize)

lemma charWidth_pos:
  assumes "0 \<le> node_fontSize n"
  shows "0 < charWidth n"
proof -
  have "0 < double (55 / 100)" by (rule double_pos) simp
  then have "0 < effectiveFontSize n * double (55 / 100)"
    using effectiveFontSize_pos [OF assms] by simp
  then show ?thesis unfolding charWidth_def by (rule double_pos)
qed

lemma charsPerLine_pos: "1 \<le> charsPerLine n"
  by (simp add: charsPerLine_def)

lemma suggestedWidth_ge: "node_width n \<le> suggestedWidth n"
  by (simp add: suggestedWidth_def)

lemma charsPerLine_mono:
  assumes f: "0 \<le> node_fontSize n" and w: "node_width n \<le> w"
  shows "charsPerLine n \<le> charsPerLine (resize n w h)"
proof -
  have "node_width n - 40 \<le> w - 40" using w by simp
  then have "double (node_width n - 40) \<le> double (w - 40)" by (rule double_mono)
  then have "double (node_width n - 40) / charWidth n \<le> double (w - 40) / charWidth n"
    using charWidth_pos [OF f] by (intro divide_right_mono) simp_all
  then have "double (double (node_width n - 40) / charWidth n) \<le>
      double (double (w - 40) / charWidth n)" by (rule double_mono)
  then have "\<lfloor>double (double (node_width n - 40) / charWidth n)\<rfloor> \<le>
      \<lfloor>double (double (w - 40) / charWidth n)\<rfloor>" by (rule floor_mono)
  then show ?thesis
    unfolding charsPerLine_def availableWidth_def charWidth_resize resize_fields by simp
qed

lemma linesNeeded_antimono:
  assumes f: "0 \<le> node_fontSize n" and w: "node_width n \<le> w"
  shows "linesNeeded (resize n w h) \<le> linesNeeded n"
proof -
  let ?L = "rat_of_nat (length (node_characters n))"
  let ?c = "rat_of_int (charsPerLine n)" and ?c' = "rat_of_int (charsPerLine (resize n w h))"
  have c: "0 < ?c" using charsPerLine_pos [of n] by simp
  have c': "?c \<le> ?c'" using charsPerLine_mono [OF f w] by simp
  have "?L / ?c' \<le> ?L / ?c"
    using c c' by (intro divide_left_mono) (simp_all add: zero_less_mult_iff)
  then have "double (?L / ?c') \<le> double (?L / ?c)" by (rule double_mono)
  then have "\<lceil>double (?L / ?c')\<rceil> \<le> \<lceil>double (?L / ?c)\<rceil>" by (rule ceiling_mono)
  then show ?thesis unfolding linesNeeded_def resize_fields .
qed

lemma lineHeight_nonneg:
  assumes "0 \<le> node_fontSize n"
  shows "0 \<le> lineHeight n"
proof -
  have "0 \<le> double (14 / 10)" by (rule double_nonneg) simp
  then have "0 \<le> effectiveFontSize n * double (14 / 10)"
    using effectiveFontSize_pos [OF assms] by simp
  then show ?thesis unfolding lineHeight_def by (rule double_nonneg)
qed

lemma textHeight_antimono:
  assumes f: "0 \<le> node_fontSize n" and w: "node_width n \<le> w"
  shows "textHeight (resize n w h) \<le> textHeight n"
proof -
  have "rat_of_int (linesNeeded (resize n w h)) \<le> rat_of_int (linesNeeded n)"
    using linesNeeded_antimono [OF f w] by simp
  then have "rat_of_int (linesNeeded (resize n w h)) * lineHeight n \<le>
      rat_of_int (linesNeeded n) * lineHeight n"
    using lineHeight_nonneg [OF f] by (rule mult_right_mono)
  then show ?thesis unfolding textHeight_def lineHeight_resize by (rule double_mono)
qed

lemma linesNeeded_bounds:
  assumes "length (node_characters n) \<le> 1073741824"
  shows "0 \<le> linesNeeded n" and "linesNeeded n \<le> 1073741825"
proof -
  let ?L = "rat_of_nat (length (node_characters n))"
  let ?c = "rat_of_int (charsPerLine n)"
  have c: "1 \<le> ?c" using charsPerLine_pos [of n] by simp
  have L: "0 \<le> ?L" "?L \<le> 1073741824" using assms by simp_all
  have q0: "0 \<le> ?L / ?c" using c L(1) by simp
  have "?L / ?c \<le> ?L / 1" using c L(1) by (intro divide_left_mono) simp_all
  then have q1: "?L / ?c \<le> 1073741824" using L(2) by simp
  have "0 \<le> double (?L / ?c)" using q0 by (rule double_nonneg)
  then show "0 \<le> linesNeeded n" unfolding linesNeeded_def by simp
  have "\<bar>?L / ?c\<bar> \<le> 2 ^ 53" using q0 q1 by simp
  then have "\<bar>double (?L / ?c) - ?L / ?c\<bar> \<le> 1" by (rule double_near)
  then have "double (?L / ?c) \<le> rat_of_int 1073741825" using q1 by simp
  then show "linesNeeded n \<le> 1073741825" unfolding linesNeeded_def by (simp only: ceiling_le_iff)
qed

lemma lineHeight_le:
  assumes f: "0 \<le> node_fontSize n" and g: "node_fontSize n \<le> 1048576"
  shows "lineHeight n \<le> 2516584"
proof -
  have "\<bar>double (14 / 10) - 14 / 10\<bar> \<le> 1" by (rule double_near) simp
  then have d: "double (14 / 10) \<le> 12 / 5" by linarith
  have d0: "0 \<le> double (14 / 10)" by (rule double_nonneg) simp
  have e: "0 < effectiveFontSize n" "effectiveFontSize n \<le> 1048576"
    using effectiveFontSize_pos [OF f] effectiveFontSize_le [OF g] by simp_all
  have "effectiveFontSize n * double (14 / 10) \<le> 1048576 * (12 / 5)"
    using e d d0 by (intro mult_mono) simp_all
  then have p: "effectiveFontSize n * double (14 / 10) \<le> 2516583" by simp
  have p0: "0 \<le> effectiveFontSize n * double (14 / 10)" using e d0 by simp
  have "\<bar>effectiveFontSize n * double (14 / 10)\<bar> \<le> 2 ^ 53" using p p0 by simp
  then have "\<bar>double (effectiveFontSize n * double (14 / 10)) -
      effectiveFontSize n * double (14 / 10)\<bar> \<le> 1" by (rule double_near)
  then show ?thesis unfolding lineHeight_def using p by simp
qed

lemma textHeight_bounds:
  assumes f: "0 \<le> node_fontSize n" and g: "node_fontSize n \<le> 1048576"
    and l: "length (node_characters n) \<le> 1073741824"
  shows "0 \<le> textHeight n" and "textHeight n \<le> 2 ^ 52"
proof -
  let ?k = "rat_of_int (linesNeeded n)"
  have k: "0 \<le> ?k" "?k \<le> 1073741825" using linesNeeded_bounds [OF l] by simp_all
  have h: "0 \<le> lineHeight n" "lineHeight n \<le> 2516584"
    using lineHeight_nonneg [OF f] lineHeight_le [OF f g] by simp_all
  have p0: "0 \<le> ?k * lineHeight n" using k(1) h(1) by simp
  then show "0 \<le> textHeight n" unfolding textHeight_def by (rule double_nonneg)
  have "?k * lineHeight n \<le> 1073741825 * 2516584" using k h by (intro mult_mono) simp_all
  then have p: "?k * lineHeight n \<le> 2702161496925800" by simp
  then have "\<bar>?k * lineHeight n\<bar> \<le> 2 ^ 53" using p0 by simp
  then have "\<bar>double (?k * lineHeight n) - ?k * lineHeight n\<bar> \<le> 1" by (rule double_near)
  then show "textHeight n \<le> 2 ^ 52" unfolding textHeight_def using p by simp
qed

lemma suggestedHeight_clears:
  assumes t: "0 \<le> textHeight n" "textHeight n \<le> 2 ^ 52"
  shows "textHeight n + 58 \<le> rat_of_int (suggestedHeight n)"
    and "rat_of_int (suggestedHeight n) \<le> textHeight n + 63"
proof -
  let ?y = "double (textHeight n + 40)"
  let ?z = "double (?y + 20)"
  have "\<bar>textHeight n + 40\<bar> \<le> 2 ^ 53" using t by simp
  then have y: "\<bar>?y - (textHeight n + 40)\<bar> \<le> 1" by (rule double_near)
  then have "\<bar>?y + 20\<bar> \<le> 2 ^ 53" using t by simp
  then have z: "\<bar>?z - (?y + 20)\<bar> \<le> 1" by (rule double_near)
  have lo: "textHeight n + 58 \<le> ?z" and hi: "?z \<le> textHeight n + 62" using y z by linarith+
  have "?z \<le> rat_of_int \<lceil>?z\<rceil>" by (rule le_of_int_ceiling)
  then show "textHeight n + 58 \<le> rat_of_int (suggestedHeight n)"
    unfolding suggestedHeight_def using lo by linarith
  have "rat_of_int \<lceil>?z\<rceil> < ?z + 1" by linarith
  then show "rat_of_int (suggestedHeight n) \<le> textHeight n + 63"
    unfolding suggestedHeight_def using hi by linarith
qed

lemma availableHeight_below:
  assumes t: "0 \<le> textHeight n" "textHeight n \<le> 2 ^ 52"
    and a: "availableHeight n < textHeight n"
  shows "node_height n < textHeight n + 41"
proof (rule ccontr)
  assume "\<not> node_height n < textHeight n + 41"
  then have h: "textHeight n + 1 \<le> node_height n - 40" by simp
  show False
  proof (cases "node_height n - 40 \<le> 2 ^ 53")
    case True
    then have "\<bar>node_height n - 40\<bar> \<le> 2 ^ 53" using h t(1) by simp
    then have "\<bar>double (node_height n - 40) - (node_height n - 40)\<bar> \<le> 1"
      by (rule double_near)
    then show False using h a unfolding availableHeight_def by linarith
  next
    case False
    then have "(2::rat) ^ 53 \<le> node_height n - 40" by simp
    then have "double (2 ^ 53) \<le> double (node_height n - 40)" by (rule double_mono)
    moreover have "\<bar>double (2 ^ 53) - 2 ^ 53\<bar> \<le> 1" by (rule double_near) simp
    ultimately show False using t(2) a unfolding availableHeight_def by simp
  qed
qed

text \<open>
  Claim C8. When the estimator pushes a text-truncated issue for a shape whose font
  size is 0 (absent, so that 14 is used) or between 1 and 1048576 and whose text has at
  most 1073741824 characters, the suggested width is at least the current width, the
  suggested height is strictly greater than the current height, and the estimator
  pushes no issue for the same shape resized to exactly the suggested width and height.
  The estimate is computed in doubles, every operation rounded; within these bounds no
  operation overflows or gives a subnormal number, and the rounding of each stays below
  one pixel.
\<close>

theorem truncation_suggestion_settles:
  assumes "TextTruncated i w h \<in> set (truncationIssues shape)"
    and "node_fontSize shape = 0 \<or> 1 \<le> node_fontSize shape"
    and "node_fontSize shape \<le> 1048576"
    and "length (node_characters shape) \<le> 1073741824"
  shows "node_width shape \<le> w \<and> node_height shape < rat_of_int h \<and>
         truncationIssues (resize shape w (rat_of_int h)) = []"
proof -
  from assms(2) have f: "0 \<le> node_fontSize shape" by auto
  from assms(1) have t: "truncated shape" and w: "w = suggestedWidth shape"
    and h: "h = suggestedHeight shape"
    by (simp_all add: truncationIssues_def split: if_splits)
  have ww: "node_width shape \<le> w" unfolding w by (rule suggestedWidth_ge)
  have tb: "0 \<le> textHeight shape" "textHeight shape \<le> 2 ^ 52"
    by (rule textHeight_bounds [OF f assms(3,4)])+
  from t have a: "availableHeight shape < textHeight shape" by (simp add: truncated_def)
  have sh: "textHeight shape + 58 \<le> rat_of_int h" "rat_of_int h \<le> textHeight shape + 63"
    unfolding h by (rule suggestedHeight_clears [OF tb])+
  have "node_height shape < textHeight shape + 41" by (rule availableHeight_below [OF tb a])
  then have hh: "node_height shape < rat_of_int h" using sh(1) by linarith
  have "\<bar>rat_of_int h - 40\<bar> \<le> 2 ^ 53" using sh tb by simp
  then have "\<bar>double (rat_of_int h - 40) - (rat_of_int h - 40)\<bar> \<le> 1" by (rule double_near)
  then have "textHeight shape \<le> double (rat_of_int h - 40)" using sh(1) by linarith
  moreover have "textHeight (resize shape w (rat_of_int h)) \<le> textHeight shape"
    by (rule textHeight_antimono [OF f ww])
  ultimately have "\<not> textHeight (resize shape w (rat_of_int h)) >
      availableHeight (resize shape w (rat_of_int h))"
    unfolding availableHeight_def resize_fields by linarith
  then have "\<not> truncated (resize shape w (rat_of_int h))" by (simp add: truncated_def)
  then show ?thesis using ww hh by (simp add: truncationIssues_def)
qed

lemmas truncation_defs =
  truncationIssues_def truncated_def textHeight_def lineHeight_def linesNeeded_def
  charsPerLine_def availableWidth_def availableHeight_def charWidth_def effectiveFontSize_def
  suggestedWidth_def suggestedHeight_def

text \<open>
  A 100 by 60 shape with a text of 20 characters at font size 14. The character width
  is \<open>7.700000000000001\<close>, so 7 characters fit a line and the text needs 3 lines of
  \<open>19.599999999999998\<close>: the estimator suggests 118 by 119 (exact arithmetic would give a
  width of 117), and the resized shape raises no issue. A 117 by 70 shape with 10
  characters raises an issue as well, because only 9 characters fit its line.
\<close>

theorem truncation_suggestion_settles_witness:
  "truncationIssues (Node ''s'' ''s'' SHAPE_WITH_TEXT 0 0 100 60
      ''abcdefghijklmnopqrst'' 14 None None []) = [TextTruncated ''s'' 118 119] \<and>
   truncationIssues (resize (Node ''s'' ''s'' SHAPE_WITH_TEXT 0 0 100 60
      ''abcdefghijklmnopqrst'' 14 None None []) 118 (rat_of_int 119)) = [] \<and>
   truncationIssues (Node ''t'' ''t'' SHAPE_WITH_TEXT 0 0 117 70
      ''abcdefghij'' 14 None None []) = [TextTruncated ''t'' 117 100]"
proof -
  have a: "truncationIssues (Node ''s'' ''s'' SHAPE_WITH_TEXT 0 0 100 60
      ''abcdefghijklmnopqrst'' 14 None None []) = [TextTruncated ''s'' 118 119]"
    by (simp add: truncation_defs double_eval rat_rounding)
  have b: "truncationIssues (Node ''t'' ''t'' SHAPE_WITH_TEXT 0 0 117 70
      ''abcdefghij'' 14 None None []) = [TextTruncated ''t'' 117 100]"
    by (simp add: truncation_defs double_eval rat_rounding)
  show ?thesis
    using truncation_suggestion_settles [of "''s''" 118 119
      "Node ''s'' ''s'' SHAPE_WITH_TEXT 0 0 100 60
         ''abcdefghijklmnopqrst'' 14 None None []"] a b
    by simp
qed

subsection \<open>Section bleed\<close>

lemma child_in_subtree: "c \<in> set (node_children n) \<Longrightarrow> c \<in> set (subtree n)"
proof (cases n)
  case (Node i nm t x y w h ch f s e cs)
  assume "c \<in> set (node_children n)"
  then have "c \<in> set cs" using Node by simp
  then have "c \<in> set (concat (map subtree cs))"
    unfolding set_concat set_map using self_in_subtree by blast
  then show ?thesis using Node by simp
qed

lemma child_in_findAll:
  "sec \<in> set page \<Longrightarrow> c \<in> set (node_children sec) \<Longrightarrow> c \<in> set (findAll page)"
  unfolding findAll_def set_concat set_map using child_in_subtree by blast

lemma structuralBleed_mem:
  "iss \<in> set (structuralBleed sec c) \<longleftrightarrow>
     node_type c \<noteq> CONNECTOR \<and> structuralBleeds sec c \<noteq> [] \<and>
     iss = SectionBleed (node_id c) (node_id sec) (structuralBleeds sec c)
             (Some (\<lceil>max (node_x c + node_width c + 30) (node_width sec)\<rceil>,
                    \<lceil>max (node_y c + node_height c + 30) (node_height sec)\<rceil>))"
  by (auto simp: structuralBleed_def Let_def)

lemma visualBleed_None: "iss \<in> set (visualBleed sec bx) \<Longrightarrow> \<exists>c s bl. iss = SectionBleed c s bl None"
  by (auto simp: visualBleed_def Let_def split: if_splits)

lemma bleedIssues_mem:
  "iss \<in> set (bleedIssues page boxes) \<longleftrightarrow>
     (\<exists>sec \<in> set page. node_type sec = SECTION \<and>
        ((\<exists>c \<in> set (node_children sec). iss \<in> set (structuralBleed sec c)) \<or>
         (\<exists>bx \<in> set boxes. iss \<in> set (visualBleed sec bx))))"
proof -
  have "iss \<in> set (bleedIssues page boxes) \<longleftrightarrow>
      (\<exists>sec \<in> set page. iss \<in> set (if node_type sec \<noteq> SECTION then []
        else concat (map (structuralBleed sec) (node_children sec)) @
             concat (map (visualBleed sec) boxes)))"
    unfolding bleedIssues_def set_concat set_map by blast
  also have "\<dots> \<longleftrightarrow> (\<exists>sec \<in> set page. node_type sec = SECTION \<and>
        ((\<exists>c \<in> set (node_children sec). iss \<in> set (structuralBleed sec c)) \<or>
         (\<exists>bx \<in> set boxes. iss \<in> set (visualBleed sec bx))))"
    by (intro bex_cong refl) (simp split: if_splits)
  finally show ?thesis .
qed

lemma Bleed_notin_truncation:
  "SectionBleed c s bl sz \<notin> set (concat (map truncationIssues page))"
  by (auto simp: truncationIssues_def)

lemma Bleed_notin_overlap: "SectionBleed c s bl sz \<notin> set (overlapIssues boxes)"
  by (simp add: overlapIssues_mem overlapPair_mem)

lemma Bleed_notin_gap: "SectionBleed c s bl sz \<notin> set (gapIssues page)"
  by (auto simp: gapIssues_def tightConnector_cases split: if_splits option.splits)

lemma Bleed_notin_path: "SectionBleed c s bl sz \<notin> set (pathIssues page boxes)"
  by (simp add: pathIssues_mem throughShape_mem)

lemma Bleed_in_report:
  "SectionBleed c s bl sz \<in> set (handleValidateLayout page) \<longleftrightarrow>
     SectionBleed c s bl sz \<in> set (bleedIssues page (collectBoxes page))"
  using Bleed_notin_truncation Bleed_notin_overlap Bleed_notin_gap Bleed_notin_path
  by (simp add: handleValidateLayout_def Let_def)

lemma structural_page_iff:
  assumes d: "distinct (map node_id (findAll page))" and sec: "sec \<in> set page"
    and st: "node_type sec = SECTION" and c: "c \<in> set (node_children sec)"
  shows "SectionBleed (node_id c) (node_id sec) bl (Some sz) \<in> set (handleValidateLayout page) \<longleftrightarrow>
      SectionBleed (node_id c) (node_id sec) bl (Some sz) \<in> set (structuralBleed sec c)"
proof
  assume "SectionBleed (node_id c) (node_id sec) bl (Some sz) \<in> set (handleValidateLayout page)"
  then obtain sec' where s': "sec' \<in> set page" "node_type sec' = SECTION"
    and alt: "(\<exists>c' \<in> set (node_children sec').
                 SectionBleed (node_id c) (node_id sec) bl (Some sz) \<in> set (structuralBleed sec' c')) \<or>
              (\<exists>bx \<in> set (collectBoxes page).
                 SectionBleed (node_id c) (node_id sec) bl (Some sz) \<in> set (visualBleed sec' bx))"
    unfolding Bleed_in_report bleedIssues_mem by blast
  from alt obtain c' where c': "c' \<in> set (node_children sec')"
      "SectionBleed (node_id c) (node_id sec) bl (Some sz) \<in> set (structuralBleed sec' c')"
    using visualBleed_None by blast
  from c'(2) have ids: "node_id c' = node_id c" "node_id sec' = node_id sec"
    by (simp_all add: structuralBleed_mem)
  have "sec' = sec"
    using distinct_ids_inj [OF d page_subset_findAll [OF s'(1)] page_subset_findAll [OF sec] ids(2)] .
  moreover have "c' = c"
    using distinct_ids_inj [OF d child_in_findAll [OF s'(1) c'(1)] child_in_findAll [OF sec c] ids(1)] .
  ultimately show "SectionBleed (node_id c) (node_id sec) bl (Some sz) \<in> set (structuralBleed sec c)"
    using c'(2) by simp
next
  assume "SectionBleed (node_id c) (node_id sec) bl (Some sz) \<in> set (structuralBleed sec c)"
  with sec st c show
    "SectionBleed (node_id c) (node_id sec) bl (Some sz) \<in> set (handleValidateLayout page)"
    unfolding Bleed_in_report bleedIssues_mem by blast
qed

lemma structuralBleeds_nonempty:
  "structuralBleeds sec c \<noteq> [] \<longleftrightarrow>
     node_x c < 0 \<or> node_x c + node_width c > node_width sec \<or>
     node_y c < 40 \<or> node_y c + node_height c > node_height sec"
  by (simp add: structuralBleeds_def SECTION_PADDING_def)

lemma structuralBleeds_edges:
  "(left_edge, k) \<in> set (structuralBleeds sec c) \<longleftrightarrow> node_x c < 0 \<and> k = Math_round (- node_x c)"
  "(right_edge, k) \<in> set (structuralBleeds sec c) \<longleftrightarrow>
     node_x c + node_width c > node_width sec \<and>
     k = Math_round (node_x c + node_width c - node_width sec)"
  "(top_edge, k) \<in> set (structuralBleeds sec c) \<longleftrightarrow> node_y c < 40 \<and> k = Math_round (40 - node_y c)"
  "(bottom_edge, k) \<in> set (structuralBleeds sec c) \<longleftrightarrow>
     node_y c + node_height c > node_height sec \<and>
     k = Math_round (node_y c + node_height c - node_height sec)"
  by (auto simp: structuralBleeds_def SECTION_PADDING_def)

lemma Math_round_Ints: "v \<in> \<int> \<Longrightarrow> rat_of_int (Math_round v) = v"
  using Math_round_of_int by (auto elim: Ints_cases)

text \<open>
  Claim C9, as amended. Let \<open>sec\<close> be a top-level section of a scene with distinct ids
  and \<open>c\<close> a child of it that is not a connector, its bounds relative to the section.
  The report holds a structural section-bleed issue for \<open>c\<close> and \<open>sec\<close> exactly when
  \<open>x < 0\<close>, or \<open>x + width\<close> exceeds the section's width, or \<open>y < 40\<close>, or
  \<open>y + height\<close> exceeds the section's height. The issue lists each violated edge,
  and no other, with the overflow rounded to the nearest integer by \<open>Math.round\<close>,
  which is the exact overflow whenever that is an integer.
\<close>

theorem structural_bleed_iff_edge_violated:
  assumes "distinct (map node_id (findAll page))" and "sec \<in> set page"
    and "node_type sec = SECTION" and "c \<in> set (node_children sec)"
    and "node_type c \<noteq> CONNECTOR"
  shows "((\<exists>bl sz. SectionBleed (node_id c) (node_id sec) bl (Some sz)
                     \<in> set (handleValidateLayout page)) \<longleftrightarrow>
            node_x c < 0 \<or> node_x c + node_width c > node_width sec \<or>
            node_y c < 40 \<or> node_y c + node_height c > node_height sec) \<and>
         (\<forall>bl sz. SectionBleed (node_id c) (node_id sec) bl (Some sz)
                     \<in> set (handleValidateLayout page) \<longrightarrow>
            (\<forall>k. ((left_edge, k) \<in> set bl \<longleftrightarrow>
                      node_x c < 0 \<and> k = Math_round (- node_x c)) \<and>
                 ((right_edge, k) \<in> set bl \<longleftrightarrow>
                      node_x c + node_width c > node_width sec \<and>
                      k = Math_round (node_x c + node_width c - node_width sec)) \<and>
                 ((top_edge, k) \<in> set bl \<longleftrightarrow>
                      node_y c < 40 \<and> k = Math_round (40 - node_y c)) \<and>
                 ((bottom_edge, k) \<in> set bl \<longleftrightarrow>
                      node_y c + node_height c > node_height sec \<and>
                      k = Math_round (node_y c + node_height c - node_height sec)))) \<and>
         (\<forall>v. v \<in> \<int> \<longrightarrow> rat_of_int (Math_round v) = v)"
proof (intro conjI allI impI)
  show "(\<exists>bl sz. SectionBleed (node_id c) (node_id sec) bl (Some sz)
                     \<in> set (handleValidateLayout page)) \<longleftrightarrow>
            node_x c < 0 \<or> node_x c + node_width c > node_width sec \<or>
            node_y c < 40 \<or> node_y c + node_height c > node_height sec"
    unfolding structural_page_iff [OF assms(1-4)] structuralBleed_mem
      structuralBleeds_nonempty [symmetric]
    using assms(5) by auto
next
  fix bl sz k
  assume "SectionBleed (node_id c) (node_id sec) bl (Some sz) \<in> set (handleValidateLayout page)"
  then have bl: "bl = structuralBleeds sec c"
    unfolding structural_page_iff [OF assms(1-4)] structuralBleed_mem by simp
  show "(left_edge, k) \<in> set bl \<longleftrightarrow> node_x c < 0 \<and> k = Math_round (- node_x c)"
    unfolding bl by (rule structuralBleeds_edges)
  show "(right_edge, k) \<in> set bl \<longleftrightarrow>
      node_x c + node_width c > node_width sec \<and>
      k = Math_round (node_x c + node_width c - node_width sec)"
    unfolding bl by (rule structuralBleeds_edges)
  show "(top_edge, k) \<in> set bl \<longleftrightarrow> node_y c < 40 \<and> k = Math_round (40 - node_y c)"
    unfolding bl by (rule structuralBleeds_edges)
  show "(bottom_edge, k) \<in> set bl \<longleftrightarrow>
      node_y c + node_height c > node_height sec \<and>
      k = Math_round (node_y c + node_height c - node_height sec)"
    unfolding bl by (rule structuralBleeds_edges)
next
  fix v :: rat assume "v \<in> \<int>"
  then show "rat_of_int (Math_round v) = v" by (rule Math_round_Ints)
qed

text \<open>
  A shape at \<open>x = -5\<close> in a 600 by 400 section is reported, and a shape that lies
  inside the section is not.
\<close>

theorem structural_bleed_iff_edge_violated_witness:
  "(\<exists>bl sz. SectionBleed ''a'' ''S'' bl (Some sz) \<in> set (handleValidateLayout
      [sectionAt ''S'' 0 0 600 400 [shapeAt ''a'' (- 5) 50 100 100]])) \<and>
   \<not> (\<exists>bl sz. SectionBleed ''a'' ''S'' bl (Some sz) \<in> set (handleValidateLayout
      [sectionAt ''S'' 0 0 600 400 [shapeAt ''a'' 50 50 100 100]]))"
proof -
  let ?S = "\<lambda>x. sectionAt ''S'' 0 0 600 400 [shapeAt ''a'' x 50 100 100]"
  have a: "distinct (map node_id (findAll [?S x]))" for x
    by (simp add: findAll_def scene_defs)
  have b: "?S x \<in> set [?S x]" for x by simp
  have c: "node_type (?S x) = SECTION" for x by (simp add: scene_defs)
  have d: "shapeAt ''a'' x 50 100 100 \<in> set (node_children (?S x))" for x
    by (simp add: scene_defs)
  have e: "node_type (shapeAt ''a'' x 50 100 100) \<noteq> CONNECTOR" for x
    by (simp add: scene_defs)
  have i: "node_id (shapeAt ''a'' x 50 100 100) = ''a''" "node_id (?S x) = ''S''" for x
    by (simp_all add: scene_defs)
  have f: "node_x (shapeAt ''a'' x 50 100 100) = x" "node_y (shapeAt ''a'' x 50 100 100) = 50"
      "node_width (shapeAt ''a'' x 50 100 100) = 100" "node_height (shapeAt ''a'' x 50 100 100) = 100"
      "node_width (?S x) = 600" "node_height (?S x) = 400" for x
    by (simp_all add: scene_defs)
  show ?thesis
    using structural_bleed_iff_edge_violated [OF a [of "- 5"] b c d e, THEN conjunct1]
          structural_bleed_iff_edge_violated [OF a [of 50] b c d e, THEN conjunct1]
    unfolding i f by simp
qed

text \<open>
  The claim as stated fails in three ways. A connector that is a child of a section
  and lies at \<open>x = -5\<close> raises no issue. A shape at \<open>x = -0.4\<close> is reported with a
  left overflow of 0, not of 0.4. A shape at \<open>x = -5\<close> in a section that is itself a
  child of a section raises no issue.
\<close>

theorem structural_bleed_counterexample:
  "handleValidateLayout [sectionAt ''S'' 0 0 600 400
      [Node ''k'' ''k'' CONNECTOR (- 5) 50 100 10 [] 0 None None []]] = [] \<and>
   handleValidateLayout [sectionAt ''S'' 0 0 600 400 [shapeAt ''a'' (- (2 / 5)) 50 100 100]] =
     [SectionBleed ''a'' ''S'' [(left_edge, 0)] (Some (600, 400))] \<and>
   handleValidateLayout [sectionAt ''S'' 0 0 600 400
      [sectionAt ''T'' 50 50 300 200 [shapeAt ''a'' (- 5) 50 100 100]]] = []"
  by (simp add: validator_defs scene_defs rat_rounding)

subsection \<open>The elements that are examined\<close>

lemma not_overlap_truncation: "filter isOverlap (concat (map truncationIssues page)) = []"
  by (induction page) (simp_all add: truncationIssues_def isOverlap_def)

lemma all_overlap_overlapIssues: "filter isOverlap (overlapIssues boxes) = overlapIssues boxes"
proof -
  have "isOverlap x" if "x \<in> set (overlapIssues boxes)" for x
    using that unfolding overlapIssues_mem overlapPair_mem by (auto simp: isOverlap_def)
  then show ?thesis by (simp add: filter_id_conv)
qed

lemma not_overlap_gap: "filter isOverlap (gapIssues page) = []"
  by (simp add: filter_empty_conv) (auto simp: gapIssues_def tightConnector_cases isOverlap_def
        split: if_splits option.splits)

lemma not_overlap_path: "filter isOverlap (pathIssues page boxes) = []"
  by (simp add: filter_empty_conv) (auto simp: pathIssues_mem throughShape_mem isOverlap_def)

lemma not_overlap_bleed: "filter isOverlap (bleedIssues page boxes) = []"
proof -
  have "\<not> isOverlap x" if "x \<in> set (bleedIssues page boxes)" for x
  proof -
    from that consider sec c where "x \<in> set (structuralBleed sec c)"
      | sec bx where "x \<in> set (visualBleed sec bx)"
      unfolding bleedIssues_mem by blast
    then show ?thesis
    proof cases
      case 1
      then show ?thesis by (simp add: structuralBleed_mem isOverlap_def)
    next
      case 2
      from visualBleed_None [OF this] show ?thesis by (auto simp: isOverlap_def)
    qed
  qed
  then show ?thesis by (simp add: filter_empty_conv)
qed

lemma overlap_issues_of_report:
  "filter isOverlap (handleValidateLayout page) = overlapIssues (collectBoxes page)"
  by (simp add: handleValidateLayout_def Let_def not_overlap_truncation
        all_overlap_overlapIssues not_overlap_gap not_overlap_path not_overlap_bleed)

lemma toBox_withoutChildren: "toBox (withoutChildren n) = toBox n"
  by (simp add: toBox_def withoutChildren_def)

lemma node_type_withoutChildren: "node_type (withoutChildren n) = node_type n"
  by (simp add: withoutChildren_def)

lemma collectBoxes_withoutChildren:
  "collectBoxes (map withoutChildren page) = collectBoxes page"
  by (induction page)
     (simp_all add: collectBoxes_def toBox_withoutChildren node_type_withoutChildren)

lemma overlap_issue_top_level:
  assumes "Overlap i j r \<in> set (handleValidateLayout page)"
  shows "\<exists>n \<in> set page. \<exists>m \<in> set page. node_id n = i \<and> node_id m = j \<and>
           node_type n \<noteq> CONNECTOR \<and> node_type m \<noteq> CONNECTOR \<and>
           overlapCond (toBox n) (toBox m)"
proof -
  from assms obtain a b where ab: "a < b" "b < length (collectBoxes page)"
      "Overlap i j r \<in> set (overlapPair (collectBoxes page ! a) (collectBoxes page ! b))"
    unfolding Overlap_in_report overlapIssues_mem by blast
  have "collectBoxes page ! a \<in> set (collectBoxes page)"
       "collectBoxes page ! b \<in> set (collectBoxes page)"
    using ab(1,2) by simp_all
  then obtain n m where nm: "n \<in> set page" "node_type n \<noteq> CONNECTOR"
      "collectBoxes page ! a = toBox n" "m \<in> set page" "node_type m \<noteq> CONNECTOR"
      "collectBoxes page ! b = toBox m"
    by (auto simp: collectBoxes_def)
  from ab(3) have "i = node_id n" "j = node_id m" "overlapCond (toBox n) (toBox m)"
    unfolding nm overlapPair_mem by (simp_all add: toBox_def)
  with nm show ?thesis by blast
qed

lemma through_issue_top_level:
  assumes "ConnectorThroughShape c b \<in> set (handleValidateLayout page)"
  shows "\<exists>m \<in> set page. node_id m = b \<and> node_type m \<noteq> CONNECTOR \<and>
           node_type m \<noteq> SECTION \<and> node_type m \<noteq> TEXT"
proof -
  from assms obtain bx where bx: "bx \<in> set (collectBoxes page)" "box_id bx = b"
      "box_nodeType bx \<noteq> SECTION" "box_nodeType bx \<noteq> TEXT"
    unfolding Through_in_report pathIssues_mem throughShape_mem by auto
  from bx(1) obtain m where "m \<in> set page" "node_type m \<noteq> CONNECTOR" "bx = toBox m"
    by (auto simp: collectBoxes_def)
  with bx(2-4) show ?thesis by (auto simp: toBox_def)
qed

text \<open>
  Claim C5, as amended. The elements that the overlap test and the connector path check
  examine are the top-level elements of the page that are not connectors, each with its
  own \<open>x\<close>, \<open>y\<close>, \<open>width\<close> and \<open>height\<close>; the children of sections are not
  collected. Every overlap issue of the report names two top-level elements, every
  connector-through-shape issue names a top-level obstacle that is neither a section
  nor a text node, and the overlap issues are the same when every top-level element
  loses its children. For every pair of different top-level elements that are not
  connectors the overlap test is performed, and every top-level element that is not a
  connector is tried as an obstacle of every connector whose endpoints resolve.
\<close>

theorem examined_elements_are_top_level:
  "(\<forall>i j r. Overlap i j r \<in> set (handleValidateLayout page) \<longrightarrow>
      (\<exists>n \<in> set page. \<exists>m \<in> set page. node_id n = i \<and> node_id m = j \<and>
          node_type n \<noteq> CONNECTOR \<and> node_type m \<noteq> CONNECTOR \<and>
          overlapCond (toBox n) (toBox m))) \<and>
   (\<forall>c b. ConnectorThroughShape c b \<in> set (handleValidateLayout page) \<longrightarrow>
      (\<exists>m \<in> set page. node_id m = b \<and> node_type m \<noteq> CONNECTOR \<and>
          node_type m \<noteq> SECTION \<and> node_type m \<noteq> TEXT)) \<and>
   filter isOverlap (handleValidateLayout (map withoutChildren page)) =
     filter isOverlap (handleValidateLayout page) \<and>
   (distinct (map node_id page) \<longrightarrow>
      (\<forall>n \<in> set page. \<forall>m \<in> set page.
          n \<noteq> m \<and> node_type n \<noteq> CONNECTOR \<and> node_type m \<noteq> CONNECTOR \<longrightarrow>
          (overlapReported (handleValidateLayout page) (node_id n) (node_id m) \<longleftrightarrow>
             overlapCond (toBox n) (toBox m)))) \<and>
   (distinct (map node_id (findAll page)) \<longrightarrow>
      (\<forall>cn \<in> set (findAll page). \<forall>sn en.
          node_type cn = CONNECTOR \<and> resolveEndpoints page cn = Some (sn, en) \<longrightarrow>
          (\<forall>b \<in> set page. node_type b \<noteq> CONNECTOR \<longrightarrow>
             (ConnectorThroughShape (node_id cn) (node_id b) \<in> set (handleValidateLayout page) \<longleftrightarrow>
                node_type b \<noteq> SECTION \<and> node_type b \<noteq> TEXT \<and>
                node_id b \<noteq> node_id sn \<and> node_id b \<noteq> node_id en \<and>
                segmentHitsBox (centerX sn) (centerY sn) (centerX en) (centerY en) (toBox b)))))"
proof (intro conjI)
  show "\<forall>i j r. Overlap i j r \<in> set (handleValidateLayout page) \<longrightarrow>
      (\<exists>n \<in> set page. \<exists>m \<in> set page. node_id n = i \<and> node_id m = j \<and>
          node_type n \<noteq> CONNECTOR \<and> node_type m \<noteq> CONNECTOR \<and>
          overlapCond (toBox n) (toBox m))"
    using overlap_issue_top_level by blast
  show "\<forall>c b. ConnectorThroughShape c b \<in> set (handleValidateLayout page) \<longrightarrow>
      (\<exists>m \<in> set page. node_id m = b \<and> node_type m \<noteq> CONNECTOR \<and>
          node_type m \<noteq> SECTION \<and> node_type m \<noteq> TEXT)"
    using through_issue_top_level by blast
  show "filter isOverlap (handleValidateLayout (map withoutChildren page)) =
     filter isOverlap (handleValidateLayout page)"
    by (simp add: overlap_issues_of_report collectBoxes_withoutChildren)
  show "distinct (map node_id page) \<longrightarrow>
      (\<forall>n \<in> set page. \<forall>m \<in> set page.
          n \<noteq> m \<and> node_type n \<noteq> CONNECTOR \<and> node_type m \<noteq> CONNECTOR \<longrightarrow>
          (overlapReported (handleValidateLayout page) (node_id n) (node_id m) \<longleftrightarrow>
             overlapCond (toBox n) (toBox m)))"
    using overlap_page_iff by blast
  show "distinct (map node_id (findAll page)) \<longrightarrow>
      (\<forall>cn \<in> set (findAll page). \<forall>sn en.
          node_type cn = CONNECTOR \<and> resolveEndpoints page cn = Some (sn, en) \<longrightarrow>
          (\<forall>b \<in> set page. node_type b \<noteq> CONNECTOR \<longrightarrow>
             (ConnectorThroughShape (node_id cn) (node_id b) \<in> set (handleValidateLayout page) \<longleftrightarrow>
                node_type b \<noteq> SECTION \<and> node_type b \<noteq> TEXT \<and>
                node_id b \<noteq> node_id sn \<and> node_id b \<noteq> node_id en \<and>
                segmentHitsBox (centerX sn) (centerY sn) (centerX en) (centerY en) (toBox b))))"
    using through_page_iff by blast
qed

text \<open>
  Two top-level shapes that cover half of each other are reported. With two coinciding
  shapes as the children of a section, the report has no overlap issue that names them.
\<close>

theorem examined_elements_are_top_level_witness:
  "overlapReported (handleValidateLayout
      [shapeAt ''a'' 0 0 100 100, shapeAt ''b'' 50 0 100 100]) ''a'' ''b'' \<and>
   Overlap ''a'' ''b'' 10000 \<notin> set (handleValidateLayout
      [sectionAt ''S'' 0 0 600 400 [shapeAt ''a'' 50 50 100 100, shapeAt ''b'' 50 50 100 100]])"
proof -
  let ?p = "[shapeAt ''a'' 0 0 100 100, shapeAt ''b'' 50 0 100 100]"
  let ?q = "[sectionAt ''S'' 0 0 600 400 [shapeAt ''a'' 50 50 100 100, shapeAt ''b'' 50 50 100 100]]"
  have d: "distinct (map node_id ?p)" by (simp add: scene_defs)
  have c: "overlapCond (toBox (shapeAt ''a'' 0 0 100 100)) (toBox (shapeAt ''b'' 50 0 100 100))"
    by (simp add: overlapCond_def toBox_def scene_defs overlapX_def overlapY_def
          overlapArea_def smallerArea_def)
  have ne: "shapeAt ''a'' 0 0 100 100 \<noteq> shapeAt ''b'' 50 0 100 100" by (simp add: scene_defs)
  have t: "node_type (shapeAt ''a'' 0 0 100 100) \<noteq> CONNECTOR"
      "node_type (shapeAt ''b'' 50 0 100 100) \<noteq> CONNECTOR" by (simp_all add: scene_defs)
  have i: "node_id (shapeAt ''a'' 0 0 100 100) = ''a''" "node_id (shapeAt ''b'' 50 0 100 100) = ''b''"
    by (simp_all add: scene_defs)
  have 1: "overlapReported (handleValidateLayout ?p) ''a'' ''b''"
    using examined_elements_are_top_level [of ?p, THEN conjunct2, THEN conjunct2,
        THEN conjunct2, THEN conjunct1, rule_format, OF d,
        of "shapeAt ''a'' 0 0 100 100" "shapeAt ''b'' 50 0 100 100"] c ne t
    unfolding i by simp
  have 2: "Overlap ''a'' ''b'' 10000 \<notin> set (handleValidateLayout ?q)"
    using examined_elements_are_top_level [of ?q, THEN conjunct1, rule_format,
        of "''a''" "''b''" 10000]
    by (auto simp: scene_defs)
  from 1 2 show ?thesis by simp
qed

text \<open>
  The claim as stated fails for the children of a section. Two coinciding shapes that
  are children of a section raise no overlap issue, and a child of a section that lies
  across the straight line between the endpoints of a connector raises no
  connector-through-shape issue: both reports are empty.
\<close>

theorem section_children_examined_counterexample:
  "handleValidateLayout
      [sectionAt ''S'' 0 0 600 400 [shapeAt ''a'' 50 50 100 100, shapeAt ''b'' 50 50 100 100]] = [] \<and>
   handleValidateLayout
      [shapeAt ''s'' 0 0 100 100, shapeAt ''e'' 300 0 100 100,
       sectionAt ''S'' 120 (- 200) 200 500 [shapeAt ''o'' 30 200 100 100],
       connectorBetween ''c'' ''s'' ''e''] = []"
  by (simp add: validator_defs scene_defs rat_rounding)

section \<open>Properties of align and distribute\<close>

subsection \<open>What a write changes\<close>

lemma sameStructure_refl: "sameStructure h h"
  by (simp add: sameStructure_def)

lemma sameStructure_trans:
  "sameStructure h h1 \<Longrightarrow> sameStructure h1 h2 \<Longrightarrow> sameStructure h h2"
  by (simp add: sameStructure_def)

lemma sameSizes_refl: "sameSizes h h"
  by (simp add: sameSizes_def)

lemma sameSizes_trans: "sameSizes h h1 \<Longrightarrow> sameSizes h1 h2 \<Longrightarrow> sameSizes h h2"
  by (simp add: sameSizes_def)

lemma onlyX_refl: "onlyX ns h h"
  by (simp add: onlyX_def sameStructure_refl sameSizes_refl)

lemma onlyX_trans: "onlyX ns h h1 \<Longrightarrow> onlyX ns h1 h2 \<Longrightarrow> onlyX ns h h2"
  unfolding onlyX_def using sameStructure_trans sameSizes_trans by auto

lemma onlyY_refl: "onlyY ns h h"
  by (simp add: onlyY_def sameStructure_refl sameSizes_refl)

lemma onlyY_trans: "onlyY ns h h1 \<Longrightarrow> onlyY ns h1 h2 \<Longrightarrow> onlyY ns h h2"
  unfolding onlyY_def using sameStructure_trans sameSizes_trans by auto

lemma setX_fields:
  "el_x (setX n v h i) = (if i = n then v else el_x (h i))"
  "el_y (setX n v h i) = el_y (h i)"
  "el_width (setX n v h i) = el_width (h i)"
  "el_height (setX n v h i) = el_height (h i)"
  "el_type (setX n v h i) = el_type (h i)"
  "el_parent (setX n v h i) = el_parent (h i)"
  "el_children (setX n v h i) = el_children (h i)"
  by (simp_all add: setX_def)

lemma setY_fields:
  "el_y (setY n v h i) = (if i = n then v else el_y (h i))"
  "el_x (setY n v h i) = el_x (h i)"
  "el_width (setY n v h i) = el_width (h i)"
  "el_height (setY n v h i) = el_height (h i)"
  "el_type (setY n v h i) = el_type (h i)"
  "el_parent (setY n v h i) = el_parent (h i)"
  "el_children (setY n v h i) = el_children (h i)"
  by (simp_all add: setY_def)

lemma onlyX_setX: "n \<in> set ns \<Longrightarrow> onlyX ns h (setX n v h)"
  by (auto simp: onlyX_def sameStructure_def sameSizes_def setX_fields)

lemma onlyY_setY: "n \<in> set ns \<Longrightarrow> onlyY ns h (setY n v h)"
  by (auto simp: onlyY_def sameStructure_def sameSizes_def setY_fields)

lemma onlyX_fold_setX:
  "set ms \<subseteq> set ns \<Longrightarrow> onlyX ns h (fold (\<lambda>n h. setX n (g n h) h) ms h)"
proof (induction ms arbitrary: h)
  case Nil
  then show ?case by (simp add: onlyX_refl)
next
  case (Cons m ms)
  have "onlyX ns h (setX m (g m h) h)" using Cons.prems by (intro onlyX_setX) simp
  moreover have "onlyX ns (setX m (g m h) h) (fold (\<lambda>n h. setX n (g n h) h) ms (setX m (g m h) h))"
    using Cons.prems by (intro Cons.IH) simp
  ultimately show ?case using onlyX_trans by simp
qed

lemma onlyY_fold_setY:
  "set ms \<subseteq> set ns \<Longrightarrow> onlyY ns h (fold (\<lambda>n h. setY n (g n h) h) ms h)"
proof (induction ms arbitrary: h)
  case Nil
  then show ?case by (simp add: onlyY_refl)
next
  case (Cons m ms)
  have "onlyY ns h (setY m (g m h) h)" using Cons.prems by (intro onlyY_setY) simp
  moreover have "onlyY ns (setY m (g m h) h) (fold (\<lambda>n h. setY n (g n h) h) ms (setY m (g m h) h))"
    using Cons.prems by (intro Cons.IH) simp
  ultimately show ?case using onlyY_trans by simp
qed

text \<open>The value that a loop of writes leaves, when the value written does not depend
  on the coordinate that is written.\<close>

lemma fold_setX_value:
  assumes "\<And>m n v h. g n (setX m v h) = g n h"
  shows "el_x (fold (\<lambda>n h. setX n (g n h) h) ns h i) = (if i \<in> set ns then g i h else el_x (h i))"
proof (induction ns arbitrary: h)
  case Nil
  then show ?case by simp
next
  case (Cons n ns)
  show ?case using Cons.IH [of "setX n (g n h) h"] assms by (simp add: setX_fields)
qed

lemma fold_setY_value:
  assumes "\<And>m n v h. g n (setY m v h) = g n h"
  shows "el_y (fold (\<lambda>n h. setY n (g n h) h) ns h i) = (if i \<in> set ns then g i h else el_y (h i))"
proof (induction ns arbitrary: h)
  case Nil
  then show ?case by simp
next
  case (Cons n ns)
  show ?case using Cons.IH [of "setY n (g n h) h"] assms by (simp add: setY_fields)
qed

lemma loopMin_Min: "loopMin v vs = Min (insert v (set vs))"
proof (induction vs arbitrary: v)
  case Nil
  then show ?case by (simp add: loopMin_def)
next
  case (Cons a vs)
  have "loopMin v (a # vs) = loopMin (min v a) vs"
    by (simp add: loopMin_def min_def not_less)
  also have "\<dots> = Min (insert (min v a) (set vs))" by (rule Cons.IH)
  also have "\<dots> = min v (Min (insert a (set vs)))" by (simp add: Min_insert_min)
  also have "\<dots> = Min (insert v (set (a # vs)))" by simp
  finally show ?case .
qed

lemma loopMax_Max: "loopMax v vs = Max (insert v (set vs))"
proof (induction vs arbitrary: v)
  case Nil
  then show ?case by (simp add: loopMax_def)
next
  case (Cons a vs)
  have "loopMax v (a # vs) = loopMax (max v a) vs"
    by (simp add: loopMax_def max_def not_less)
  also have "\<dots> = Max (insert (max v a) (set vs))" by (rule Cons.IH)
  also have "\<dots> = max v (Max (insert a (set vs)))" by (simp add: Max_insert_max)
  also have "\<dots> = Max (insert v (set (a # vs)))" by simp
  finally show ?case .
qed

subsection \<open>Section auto-fit\<close>





















lemma touchedSections_sameStructure:
  "sameStructure h h1 \<Longrightarrow> touchedSections h1 ns = touchedSections h ns"
  by (simp add: touchedSections_def sameStructure_def)

lemma touchedSections_Cons: "touchedSections h ns \<subseteq> touchedSections h (n # ns)"
  by (auto simp: touchedSections_def)







subsection \<open>Repositioning\<close>

lemma alignNodes_branches:
  "alignNodes ''left'' (n0 # rest) h =
     fold (\<lambda>n h'. setX n (loopMin (el_x (h n0)) (map (\<lambda>n. el_x (h n)) rest)) h') (n0 # rest) h"
  "alignNodes ''right'' (n0 # rest) h =
     fold (\<lambda>n h'. setX n (loopMax (right_of h n0) (map (right_of h) rest) - el_width (h' n)) h')
       (n0 # rest) h"
  "alignNodes ''center'' (n0 # rest) h =
     fold (\<lambda>n h'. setX n
             (foldl (\<lambda>s n. s + (el_x (h n) + el_width (h n) / 2)) 0 (n0 # rest) /
                rat_of_nat (length (n0 # rest)) - el_width (h' n) / 2) h')
       (n0 # rest) h"
  "alignNodes ''top'' (n0 # rest) h =
     fold (\<lambda>n h'. setY n (loopMin (el_y (h n0)) (map (\<lambda>n. el_y (h n)) rest)) h') (n0 # rest) h"
  "alignNodes ''bottom'' (n0 # rest) h =
     fold (\<lambda>n h'. setY n (loopMax (bottom_of h n0) (map (bottom_of h) rest) - el_height (h' n)) h')
       (n0 # rest) h"
  "alignNodes ''middle'' (n0 # rest) h =
     fold (\<lambda>n h'. setY n
             (foldl (\<lambda>s n. s + (el_y (h n) + el_height (h n) / 2)) 0 (n0 # rest) /
                rat_of_nat (length (n0 # rest)) - el_height (h' n) / 2) h')
       (n0 # rest) h"
  by (simp_all add: alignNodes_def Let_def del: fold_simps foldl_Cons)

lemma alignNodes_Nil: "alignNodes alignment [] h = h"
  by (simp add: alignNodes_def)

lemma alignNodes_horizontal:
  assumes "alignment = ''left'' \<or> alignment = ''right'' \<or> alignment = ''center''"
  shows "onlyX ns h (alignNodes alignment ns h)"
proof (cases ns)
  case Nil
  then show ?thesis by (simp add: alignNodes_Nil onlyX_refl)
next
  case (Cons n0 rest)
  from assms consider "alignment = ''left''" | "alignment = ''right''" | "alignment = ''center''"
    by blast
  then show ?thesis
  proof cases
    case 1
    show ?thesis unfolding 1 Cons alignNodes_branches by (rule onlyX_fold_setX) simp
  next
    case 2
    show ?thesis unfolding 2 Cons alignNodes_branches by (rule onlyX_fold_setX) simp
  next
    case 3
    show ?thesis unfolding 3 Cons alignNodes_branches by (rule onlyX_fold_setX) simp
  qed
qed

lemma alignNodes_vertical:
  assumes "alignment = ''top'' \<or> alignment = ''bottom'' \<or> alignment = ''middle''"
  shows "onlyY ns h (alignNodes alignment ns h)"
proof (cases ns)
  case Nil
  then show ?thesis by (simp add: alignNodes_Nil onlyY_refl)
next
  case (Cons n0 rest)
  from assms consider "alignment = ''top''" | "alignment = ''bottom''" | "alignment = ''middle''"
    by blast
  then show ?thesis
  proof cases
    case 1
    show ?thesis unfolding 1 Cons alignNodes_branches by (rule onlyY_fold_setY) simp
  next
    case 2
    show ?thesis unfolding 2 Cons alignNodes_branches by (rule onlyY_fold_setY) simp
  next
    case 3
    show ?thesis unfolding 3 Cons alignNodes_branches by (rule onlyY_fold_setY) simp
  qed
qed

lemma alignNodes_other:
  assumes "alignment \<noteq> ''left''" "alignment \<noteq> ''right''" "alignment \<noteq> ''center''"
    "alignment \<noteq> ''top''" "alignment \<noteq> ''bottom''" "alignment \<noteq> ''middle''"
  shows "alignNodes alignment ns h = h"
  using assms by (cases ns) (simp_all add: alignNodes_def)









lemma resizeLoop_untouched:
  "touchedSections h ns = {} \<Longrightarrow> resizeLoop ns h visited resized = (h, resized)"
proof (induction ns arbitrary: visited resized)
  case Nil
  then show ?case by simp
next
  case (Cons n ns)
  from Cons.prems have "touchedSections h ns = {}" using touchedSections_Cons by blast
  then have "resizeLoop ns h visited resized = (h, resized)" by (rule Cons.IH)
  moreover have "el_type (h p) \<noteq> SECTION" if "el_parent (h n) = Some p" for p
    using Cons.prems that by (auto simp: touchedSections_def)
  ultimately show ?case by (cases "el_parent (h n)") simp_all
qed

lemma handleAlignElements_nodes:
  "nodes (fst (handleAlignElements sc elementIds alignment)) =
     (if length (resolveNodes sc elementIds) < 2 then nodes sc
      else fst (resizeParentSections (resolveNodes sc elementIds)
                  (alignNodes alignment (resolveNodes sc elementIds) (nodes sc))))"
  by (simp add: handleAlignElements_def Let_def split: prod.splits)




subsection \<open>Sizes\<close>

lemma onlyX_sizes: "onlyX ns h h1 \<Longrightarrow> el_width (h1 i) = el_width (h i) \<and> el_height (h1 i) = el_height (h i)"
  by (simp add: onlyX_def sameSizes_def)

lemma onlyY_sizes: "onlyY ns h h1 \<Longrightarrow> el_width (h1 i) = el_width (h i) \<and> el_height (h1 i) = el_height (h i)"
  by (simp add: onlyY_def sameSizes_def)

lemma alignNodes_sizes:
  "el_width (alignNodes alignment ns h i) = el_width (h i) \<and>
   el_height (alignNodes alignment ns h i) = el_height (h i)"
proof -
  consider "alignment = ''left'' \<or> alignment = ''right'' \<or> alignment = ''center''"
    | "alignment = ''top'' \<or> alignment = ''bottom'' \<or> alignment = ''middle''"
    | "alignment \<noteq> ''left''" "alignment \<noteq> ''right''" "alignment \<noteq> ''center''"
      "alignment \<noteq> ''top''" "alignment \<noteq> ''bottom''" "alignment \<noteq> ''middle''"
    by blast
  then show ?thesis
  proof cases
    case 1
    from alignNodes_horizontal [OF this] show ?thesis by (rule onlyX_sizes)
  next
    case 2
    from alignNodes_vertical [OF this] show ?thesis by (rule onlyY_sizes)
  next
    case 3
    then show ?thesis by (simp add: alignNodes_other)
  qed
qed







subsection \<open>Distribution\<close>

text \<open>
  Claim C6, as amended. Three elements of width 50 at \<open>x = 0, 60, 500\<close>, distributed
  horizontally with a spacing of 60, keep their natural gap of 200, the larger of 200
  and 60: they are placed at \<open>x = 0, 250, 500\<close> and the call reports a spacing of 200.
  The floor of 60 applies when the natural gap is below it: three elements of width 50
  at \<open>x = 0, 60, 120\<close>, whose natural gap is 10, are placed with gaps of exactly 60,
  at \<open>x = 0, 110, 220\<close>.
\<close>

theorem distribute_three_elements:
  "xsOf (fst (handleDistributeElements
       (sceneOf [(''a'', elementAt 0 0 50 50 None), (''b'', elementAt 60 0 50 50 None),
                 (''c'', elementAt 500 0 50 50 None)])
       [''a'', ''b'', ''c''] ''horizontal'' (Some 60))) [''a'', ''b'', ''c''] = [0, 250, 500] \<and>
   snd (handleDistributeElements
       (sceneOf [(''a'', elementAt 0 0 50 50 None), (''b'', elementAt 60 0 50 50 None),
                 (''c'', elementAt 500 0 50 50 None)])
       [''a'', ''b'', ''c''] ''horizontal'' (Some 60)) = (3, Some (200, [])) \<and>
   xsOf (fst (handleDistributeElements
       (sceneOf [(''a'', elementAt 0 0 50 50 None), (''b'', elementAt 60 0 50 50 None),
                 (''c'', elementAt 120 0 50 50 None)])
       [''a'', ''b'', ''c''] ''horizontal'' (Some 60))) [''a'', ''b'', ''c''] = [0, 110, 220] \<and>
   snd (handleDistributeElements
       (sceneOf [(''a'', elementAt 0 0 50 50 None), (''b'', elementAt 60 0 50 50 None),
                 (''c'', elementAt 120 0 50 50 None)])
       [''a'', ''b'', ''c''] ''horizontal'' (Some 60)) = (3, Some (60, []))"
  by (simp add: store_defs)

text \<open>
  The claim as stated fails: the three elements at \<open>x = 0, 60, 500\<close> are not placed at
  \<open>x = 0, 110, 220\<close>; the second stays 200 units, not 60, to the right of the first.
\<close>

theorem distribute_three_elements_counterexample:
  "xsOf (fst (handleDistributeElements
       (sceneOf [(''a'', elementAt 0 0 50 50 None), (''b'', elementAt 60 0 50 50 None),
                 (''c'', elementAt 500 0 50 50 None)])
       [''a'', ''b'', ''c''] ''horizontal'' (Some 60))) [''a'', ''b'', ''c''] \<noteq> [0, 110, 220]"
  by (simp add: store_defs)

subsection \<open>Alignment\<close>

lemma foldl_plus_sum_list:
  "foldl (\<lambda>s n. s + f n) a ns = a + sum_list (map f ns)" for a :: rat
  by (induction ns arbitrary: a) (simp_all add: add.assoc)

lemma alignNodes_left_x:
  assumes "n \<in> set ns"
  shows "el_x (alignNodes ''left'' ns h n) = Min ((\<lambda>m. el_x (h m)) ` set ns)"
proof -
  from assms obtain n0 rest where ns: "ns = n0 # rest" by (cases ns) auto
  have "el_x (alignNodes ''left'' ns h n) = loopMin (el_x (h n0)) (map (\<lambda>n. el_x (h n)) rest)"
    unfolding ns alignNodes_branches
    using fold_setX_value
      [of "\<lambda>n h'. loopMin (el_x (h n0)) (map (\<lambda>n. el_x (h n)) rest)" "n0 # rest" h n]
      assms ns
    by simp
  then show ?thesis by (simp add: loopMin_Min ns)
qed

lemma alignNodes_right_x:
  assumes "n \<in> set ns"
  shows "el_x (alignNodes ''right'' ns h n) = Max (right_of h ` set ns) - el_width (h n)"
proof -
  from assms obtain n0 rest where ns: "ns = n0 # rest" by (cases ns) auto
  have "el_x (alignNodes ''right'' ns h n) =
      loopMax (right_of h n0) (map (right_of h) rest) - el_width (h n)"
    unfolding ns alignNodes_branches
    using fold_setX_value
      [of "\<lambda>n h'. loopMax (right_of h n0) (map (right_of h) rest) - el_width (h' n)"
          "n0 # rest" h n]
      assms ns
    by (simp add: setX_fields)
  then show ?thesis by (simp add: loopMax_Max ns)
qed

lemma alignNodes_center_x:
  assumes "n \<in> set ns"
  shows "el_x (alignNodes ''center'' ns h n) =
     sum_list (map (\<lambda>m. el_x (h m) + el_width (h m) / 2) ns) / rat_of_nat (length ns)
       - el_width (h n) / 2"
proof -
  from assms obtain n0 rest where ns: "ns = n0 # rest" by (cases ns) auto
  have "el_x (alignNodes ''center'' ns h n) =
      foldl (\<lambda>s n. s + (el_x (h n) + el_width (h n) / 2)) 0 (n0 # rest) /
        rat_of_nat (length (n0 # rest)) - el_width (h n) / 2"
    unfolding ns alignNodes_branches
    using fold_setX_value
      [of "\<lambda>n h'. foldl (\<lambda>s n. s + (el_x (h n) + el_width (h n) / 2)) 0 (n0 # rest) /
              rat_of_nat (length (n0 # rest)) - el_width (h' n) / 2"
          "n0 # rest" h n]
      assms ns
    by (simp add: setX_fields del: foldl_Cons)
  then show ?thesis unfolding foldl_plus_sum_list ns by simp
qed

lemma alignNodes_structure: "sameStructure h (alignNodes alignment ns h)"
proof -
  consider "alignment = ''left'' \<or> alignment = ''right'' \<or> alignment = ''center''"
    | "alignment = ''top'' \<or> alignment = ''bottom'' \<or> alignment = ''middle''"
    | "alignment \<noteq> ''left''" "alignment \<noteq> ''right''" "alignment \<noteq> ''center''"
      "alignment \<noteq> ''top''" "alignment \<noteq> ''bottom''" "alignment \<noteq> ''middle''"
    by blast
  then show ?thesis
  proof cases
    case 1
    from alignNodes_horizontal [OF this] show ?thesis by (simp add: onlyX_def)
  next
    case 2
    from alignNodes_vertical [OF this] show ?thesis by (simp add: onlyY_def)
  next
    case 3
    then show ?thesis by (simp add: alignNodes_other sameStructure_refl)
  qed
qed

lemma handleAlignElements_untouched:
  assumes "2 \<le> length (resolveNodes sc elementIds)"
    and "touchedSections (nodes sc) (resolveNodes sc elementIds) = {}"
  shows "nodes (fst (handleAlignElements sc elementIds alignment)) =
     alignNodes alignment (resolveNodes sc elementIds) (nodes sc)"
proof -
  let ?ns = "resolveNodes sc elementIds"
  have "touchedSections (alignNodes alignment ?ns (nodes sc)) ?ns = {}"
    using touchedSections_sameStructure [OF alignNodes_structure] assms(2) by simp
  then have "resizeParentSections ?ns (alignNodes alignment ?ns (nodes sc)) =
      (alignNodes alignment ?ns (nodes sc), [])"
    unfolding resizeParentSections_def by (rule resizeLoop_untouched)
  then show ?thesis using assms(1) by (simp add: handleAlignElements_nodes)
qed

lemma handleAlignElements_noop:
  "length (resolveNodes sc elementIds) < 2 \<Longrightarrow>
     fst (handleAlignElements sc elementIds alignment) = sc"
  by (simp add: handleAlignElements_def Let_def)

text \<open>
  Claim C7, as amended. With fewer than two resolved elements the call changes nothing.
  With two or more, the repositioning step of an alignment on the left sets the \<open>x\<close>
  of every resolved element to the least \<open>x\<close> of the resolved elements; on the right
  it sets the \<open>x\<close> of every resolved element to the greatest right edge minus the
  element's own width, which it keeps; on the centre it sets the horizontal centre of
  every resolved element to the arithmetic mean of the centres. The auto-fit that ends
  the call leaves the store of the repositioning step as it is when no resolved element
  is a child of a section.
\<close>

theorem align_sets_coordinates:
  "(let ns = resolveNodes sc elementIds; h = nodes sc in
      (length ns < 2 \<longrightarrow> fst (handleAlignElements sc elementIds alignment) = sc) \<and>
      (2 \<le> length ns \<longrightarrow>
         (\<forall>n \<in> set ns. el_x (alignNodes ''left'' ns h n) = Min ((\<lambda>m. el_x (h m)) ` set ns)) \<and>
         (\<forall>n \<in> set ns.
             el_x (alignNodes ''right'' ns h n) = Max (right_of h ` set ns) - el_width (h n) \<and>
             el_width (alignNodes ''right'' ns h n) = el_width (h n)) \<and>
         (\<forall>n \<in> set ns.
             el_x (alignNodes ''center'' ns h n) + el_width (alignNodes ''center'' ns h n) / 2 =
               sum_list (map (\<lambda>m. el_x (h m) + el_width (h m) / 2) ns) / rat_of_nat (length ns)) \<and>
         (touchedSections h ns = {} \<longrightarrow>
            nodes (fst (handleAlignElements sc elementIds alignment)) = alignNodes alignment ns h)))"
  unfolding Let_def
proof (intro conjI impI ballI)
  assume "length (resolveNodes sc elementIds) < 2"
  then show "fst (handleAlignElements sc elementIds alignment) = sc"
    by (rule handleAlignElements_noop)
next
  fix n assume "n \<in> set (resolveNodes sc elementIds)"
  then show "el_x (alignNodes ''left'' (resolveNodes sc elementIds) (nodes sc) n) =
      Min ((\<lambda>m. el_x (nodes sc m)) ` set (resolveNodes sc elementIds))"
    by (rule alignNodes_left_x)
next
  fix n assume "n \<in> set (resolveNodes sc elementIds)"
  then show "el_x (alignNodes ''right'' (resolveNodes sc elementIds) (nodes sc) n) =
      Max (right_of (nodes sc) ` set (resolveNodes sc elementIds)) - el_width (nodes sc n)"
    by (rule alignNodes_right_x)
next
  fix n
  show "el_width (alignNodes ''right'' (resolveNodes sc elementIds) (nodes sc) n) =
      el_width (nodes sc n)"
    by (simp add: alignNodes_sizes)
next
  fix n assume "n \<in> set (resolveNodes sc elementIds)"
  then show "el_x (alignNodes ''center'' (resolveNodes sc elementIds) (nodes sc) n) +
        el_width (alignNodes ''center'' (resolveNodes sc elementIds) (nodes sc) n) / 2 =
      sum_list (map (\<lambda>m. el_x (nodes sc m) + el_width (nodes sc m) / 2)
                  (resolveNodes sc elementIds)) /
        rat_of_nat (length (resolveNodes sc elementIds))"
    by (simp add: alignNodes_center_x alignNodes_sizes)
next
  assume "2 \<le> length (resolveNodes sc elementIds)"
    and "touchedSections (nodes sc) (resolveNodes sc elementIds) = {}"
  then show "nodes (fst (handleAlignElements sc elementIds alignment)) =
      alignNodes alignment (resolveNodes sc elementIds) (nodes sc)"
    by (rule handleAlignElements_untouched)
qed

text \<open>
  Aligning \<open>{x: 0, w: 50}\<close>, \<open>{x: 30, w: 20}\<close>, \<open>{x: 10, w: 40}\<close>, none of them in a
  section, on the left sets all three \<open>x\<close> to 0, and on the right sets \<open>x\<close> to 0, 30
  and 10, so that all three right edges are at 50. Aligning one element alone changes
  nothing.
\<close>

theorem align_sets_coordinates_witness:
  "xsOf (fst (handleAlignElements
      (sceneOf [(''a'', elementAt 0 0 50 50 None), (''b'', elementAt 30 0 20 50 None),
                (''c'', elementAt 10 0 40 50 None)])
      [''a'', ''b'', ''c''] ''left'')) [''a'', ''b'', ''c''] = [0, 0, 0] \<and>
   xsOf (fst (handleAlignElements
      (sceneOf [(''a'', elementAt 0 0 50 50 None), (''b'', elementAt 30 0 20 50 None),
                (''c'', elementAt 10 0 40 50 None)])
      [''a'', ''b'', ''c''] ''right'')) [''a'', ''b'', ''c''] = [0, 30, 10] \<and>
   fst (handleAlignElements
      (sceneOf [(''a'', elementAt 0 0 50 50 None), (''b'', elementAt 30 0 20 50 None),
                (''c'', elementAt 10 0 40 50 None)])
      [''a''] ''left'') =
     sceneOf [(''a'', elementAt 0 0 50 50 None), (''b'', elementAt 30 0 20 50 None),
              (''c'', elementAt 10 0 40 50 None)]"
proof -
  let ?sc = "sceneOf [(''a'', elementAt 0 0 50 50 None), (''b'', elementAt 30 0 20 50 None),
                (''c'', elementAt 10 0 40 50 None)]"
  have r: "resolveNodes ?sc [''a'', ''b'', ''c''] = [''a'', ''b'', ''c'']"
      "resolveNodes ?sc [''a''] = [''a'']"
    by (simp_all add: resolveNodes_def sceneOf_def)
  have t: "touchedSections (nodes ?sc) [''a'', ''b'', ''c''] = {}"
    by (simp add: touchedSections_def sceneOf_def elementAt_def)
  have v: "el_x (nodes ?sc ''a'') = 0" "el_x (nodes ?sc ''b'') = 30" "el_x (nodes ?sc ''c'') = 10"
      "el_width (nodes ?sc ''a'') = 50" "el_width (nodes ?sc ''b'') = 20"
      "el_width (nodes ?sc ''c'') = 40"
    by (simp_all add: sceneOf_def elementAt_def)
  note L = align_sets_coordinates [of ?sc "[''a'', ''b'', ''c'']" "''left''",
      unfolded Let_def r]
  note R = align_sets_coordinates [of ?sc "[''a'', ''b'', ''c'']" "''right''",
      unfolded Let_def r]
  note N = align_sets_coordinates [of ?sc "[''a'']" "''left''", unfolded Let_def r]
  have 1: "xsOf (fst (handleAlignElements ?sc [''a'', ''b'', ''c''] ''left'')) [''a'', ''b'', ''c'']
      = [0, 0, 0]"
    using L t by (simp add: xsOf_def v)
  have 2: "xsOf (fst (handleAlignElements ?sc [''a'', ''b'', ''c''] ''right'')) [''a'', ''b'', ''c'']
      = [0, 30, 10]"
    using R t by (simp add: xsOf_def v right_of_def)
  have 3: "fst (handleAlignElements ?sc [''a''] ''left'') = ?sc"
    using N by simp
  from 1 2 3 show ?thesis by simp
qed

text \<open>
  The claim as stated fails for the children of a section. The children \<open>a\<close> at
  \<open>x = 10\<close> and \<open>b\<close> at \<open>x = 30\<close> of a section, aligned on the left, end at \<open>x = 40\<close>
  and not at the least \<open>x\<close> of the two, which is 10: the auto-fit that ends the call
  shifts them to the margin.
\<close>

theorem align_left_in_section_counterexample:
  "xsOf (fst (handleAlignElements
      (sceneOf [(''S'', sectionElement 0 0 100 100 [''a'', ''b'']),
                (''a'', elementAt 10 50 50 50 (Some ''S'')),
                (''b'', elementAt 30 120 20 50 (Some ''S''))])
      [''a'', ''b''] ''left'')) [''a'', ''b''] = [40, 40] \<and>
   xsOf (sceneOf [(''S'', sectionElement 0 0 100 100 [''a'', ''b'']),
                (''a'', elementAt 10 50 50 50 (Some ''S'')),
                (''b'', elementAt 30 120 20 50 (Some ''S''))]) [''a'', ''b''] = [10, 30]"
  by (simp add: store_defs alignNodes_def fitSection_def loopMin_def loopMax_def right_of_def
        bottom_of_def shiftChildren_def resizeWithoutConstraints_def SECTION_PADDING_def)

subsection \<open>The frame of a call\<close>










subsection \<open>Auto-fit of the touched sections\<close>



















end
